theory Spec2Isabelle
  imports Main "HOL-Library.Sublist"
begin

section \<open>Paths: the parts of Node's posix \<open>path\<close> module that server.js calls\<close>

text \<open>
  server.js builds every location with \<open>path.join\<close> and \<open>path.dirname\<close>. Both work on
  strings; \<open>path.join\<close> glues its non-empty arguments with a slash and normalises the
  result: empty and \<open>.\<close> segments vanish, a \<open>..\<close> segment removes the segment before it
  (at the root of an absolute path it is dropped), a trailing slash is kept.
\<close>

fun segments :: "string \<Rightarrow> string list" where
  "segments [] = [[]]"
| "segments (c # cs) =
     (if c = CHR ''/'' then [] # segments cs
      else (c # hd (segments cs)) # tl (segments cs))"

fun joinSegments :: "string list \<Rightarrow> string" where
  "joinSegments [] = []"
| "joinSegments [s] = s"
| "joinSegments (s # t # ss) = s @ ''/'' @ joinSegments (t # ss)"

definition normalizeStep :: "bool \<Rightarrow> string list \<Rightarrow> string \<Rightarrow> string list" where
  "normalizeStep allowAboveRoot res seg =
     (if seg = [] \<or> seg = ''.'' then res
      else if seg = ''..'' then
        (if res \<noteq> [] \<and> last res \<noteq> ''..'' then butlast res
         else if allowAboveRoot then res @ [''..'']
         else res)
      else res @ [seg])"

definition normalizeSegments :: "bool \<Rightarrow> string list \<Rightarrow> string list" where
  "normalizeSegments allowAboveRoot segs = foldl (normalizeStep allowAboveRoot) [] segs"

definition normalizeString :: "string \<Rightarrow> bool \<Rightarrow> string" where
  "normalizeString path allowAboveRoot =
     joinSegments (normalizeSegments allowAboveRoot (segments path))"

definition isAbsolute :: "string \<Rightarrow> bool" where
  "isAbsolute path = (case path of [] \<Rightarrow> False | c # _ \<Rightarrow> c = CHR ''/'')"

definition trailingSeparator :: "string \<Rightarrow> bool" where
  "trailingSeparator path = (path \<noteq> [] \<and> last path = CHR ''/'')"

definition normalize :: "string \<Rightarrow> string" where
  "normalize path =
     (if path = [] then ''.''
      else
        let p = normalizeString path (\<not> isAbsolute path) in
        if p = [] then
          (if isAbsolute path then ''/''
           else if trailingSeparator path then ''./'' else ''.'')
        else
          (if isAbsolute path then ''/'' else []) @ p
            @ (if trailingSeparator path then ''/'' else []))"

definition path_join :: "string list \<Rightarrow> string" where
  "path_join args =
     (case filter (\<lambda>arg. arg \<noteq> []) args of
        [] \<Rightarrow> ''.''
      | a # as \<Rightarrow> normalize (joinSegments (a # as)))"

text \<open>
  \<open>path.dirname\<close> scans from the end of the string, never looking at its first character:
  it skips trailing slashes, then the last segment, and cuts at the slash in front of it.
\<close>

definition dirname :: "string \<Rightarrow> string" where
  "dirname path =
     (if path = [] then ''.''
      else
        let r = dropWhile (\<lambda>c. c \<noteq> CHR ''/'')
                  (dropWhile (\<lambda>c. c = CHR ''/'') (rev (tl path)))
        in if r = [] then (if isAbsolute path then ''/'' else ''.'')
           else if isAbsolute path \<and> length r = 1 then ''//''
           else take (length r) path)"

section \<open>The host file system\<close>

text \<open>
  The mirrored directory tree lives on the host, where the commands that the backend
  starts work on it too. An entry is a regular file, a directory or a symbolic link.
  A location is the list of names that leads to an entry from the root; the root is the
  empty list and is always a directory. Strings stand for the bytes handed to the
  host, so lengths are lengths in bytes.

  Every path that server.js hands to \<open>fs\<close> is an absolute result of \<open>path.join\<close> or of
  \<open>path.dirname\<close>, so its names are read off by splitting it; the host then walks the
  names and follows the symbolic links it meets, up to forty of them. Failures for
  lack of permission or of space are not modelled.
\<close>

datatype node = File string | Dir | Link string

datatype host_error =
    ENOENT | ENOTDIR | EEXIST | EISDIR | ELOOP | ENAMETOOLONG | ERR_INVALID_ARG_VALUE
  | ENOMEM | E2BIG

type_synonym filesystem = "string list \<rightharpoonup> node"

definition resolve :: "string \<Rightarrow> string list" where
  "resolve p = normalizeSegments False (segments p)"

text \<open>
  What is refused before the tree is looked at: \<open>fs\<close> throws for a path with a NUL
  character, and the host refuses a name of more than 255 bytes and a path of more than
  4095.
\<close>

definition refusal :: "string \<Rightarrow> host_error option" where
  "refusal p =
     (if CHR 0x00 \<in> set p then Some ERR_INVALID_ARG_VALUE
      else if 4096 \<le> length p \<or> list_ex (\<lambda>s. 255 < length s) (segments p)
      then Some ENAMETOOLONG
      else None)"

text \<open>The names in the target of a symbolic link.\<close>

definition components :: "string \<Rightarrow> string list" where
  "components t = filter (\<lambda>s. s \<noteq> [] \<and> s \<noteq> ''.'') (segments t)"

text \<open>
  The walk from the directory \<open>cur\<close> along the names \<open>ss\<close>. Every name but the last must
  lead to a directory; the last one may be missing. A symbolic link is replaced by
  its target, which starts at the root when it is absolute and at the directory of
  the link otherwise. The result is the location reached and the number of links that
  may still be followed.
\<close>

fun walk :: "filesystem \<Rightarrow> nat \<Rightarrow> string list \<Rightarrow> string list \<Rightarrow> host_error + nat \<times> string list" where
  "walk d fuel cur [] = Inr (fuel, cur)"
| "walk d fuel cur (s # ss) =
     (if s = ''..'' then walk d fuel (butlast cur) ss
      else
        (case d (cur @ [s]) of
           None \<Rightarrow> if ss = [] then Inr (fuel, cur @ [s]) else Inl ENOENT
         | Some n \<Rightarrow>
             (case n of
                File c \<Rightarrow> if ss = [] then Inr (fuel, cur @ [s]) else Inl ENOTDIR
              | Dir \<Rightarrow> walk d fuel (cur @ [s]) ss
              | Link t \<Rightarrow>
                  (case fuel of
                     0 \<Rightarrow> Inl ELOOP
                   | Suc n \<Rightarrow>
                       walk d n (if isAbsolute t then [] else cur) (components t @ ss)))))"

definition locate :: "filesystem \<Rightarrow> string \<Rightarrow> host_error + string list" where
  "locate d p =
     (case refusal p of
        Some e \<Rightarrow> Inl e
      | None \<Rightarrow>
          (case walk d 40 [] (resolve p) of
             Inl e \<Rightarrow> Inl e
           | Inr (fuel, k) \<Rightarrow> Inr k))"

text \<open>
  \<open>fs.mkdirSync(p, { recursive: true })\<close> makes the directories that are missing on the
  way, one name after the other. A regular file in the place of the last name gives
  \<open>EEXIST\<close>, one on the way \<open>ENOTDIR\<close>, a symbolic link that leads nowhere \<open>ENOENT\<close>.
\<close>

fun mkdirp :: "filesystem \<Rightarrow> nat \<Rightarrow> string list \<Rightarrow> string list \<Rightarrow> host_error + filesystem" where
  "mkdirp d fuel cur [] = Inr d"
| "mkdirp d fuel cur (s # ss) =
     (case walk d fuel cur [s] of
        Inl e \<Rightarrow> Inl e
      | Inr (fuel', k) \<Rightarrow>
          if k = [] then mkdirp d fuel' k ss
          else
            (case d k of
               None \<Rightarrow> if k = cur @ [s] then mkdirp (d(k \<mapsto> Dir)) fuel' k ss else Inl ENOENT
             | Some n \<Rightarrow>
                 (case n of
                    File c \<Rightarrow> Inl (if ss = [] then EEXIST else ENOTDIR)
                  | Dir \<Rightarrow> mkdirp d fuel' k ss
                  | Link t \<Rightarrow> Inl ELOOP)))"

definition mkdirSync :: "filesystem \<Rightarrow> string \<Rightarrow> host_error + filesystem" where
  "mkdirSync d p =
     (case refusal p of
        Some e \<Rightarrow> Inl e
      | None \<Rightarrow> mkdirp d 40 [] (resolve p))"

text \<open>
  \<open>fs.writeFileSync(p, content)\<close> creates or truncates a regular file; it follows a
  symbolic link in the place of the file. A path with a trailing slash cannot be
  opened for writing.
\<close>

definition writeFileSync :: "filesystem \<Rightarrow> string \<Rightarrow> string \<Rightarrow> host_error + filesystem" where
  "writeFileSync d p content =
     (case locate d p of
        Inl e \<Rightarrow> Inl e
      | Inr k \<Rightarrow>
          if trailingSeparator p \<or> k = [] then Inl EISDIR
          else
            (case d k of
               None \<Rightarrow> Inr (d(k \<mapsto> File content))
             | Some n \<Rightarrow>
                 (case n of
                    File c \<Rightarrow> Inr (d(k \<mapsto> File content))
                  | Dir \<Rightarrow> Inl EISDIR
                  | Link t \<Rightarrow> Inl ELOOP)))"

text \<open>\<open>fs.existsSync(p)\<close> answers \<open>false\<close> where the host reports an error.\<close>

definition existsSync :: "filesystem \<Rightarrow> string \<Rightarrow> bool" where
  "existsSync d p =
     (case locate d p of
        Inl e \<Rightarrow> False
      | Inr k \<Rightarrow>
          k = [] \<or>
          (case d k of
             None \<Rightarrow> False
           | Some n \<Rightarrow>
               (case n of
                  File c \<Rightarrow> \<not> trailingSeparator p
                | Dir \<Rightarrow> True
                | Link t \<Rightarrow> False)))"

text \<open>\<open>fs.readFileSync(p, 'utf-8')\<close>\<close>

definition readFileSync :: "filesystem \<Rightarrow> string \<Rightarrow> host_error + string" where
  "readFileSync d p =
     (case locate d p of
        Inl e \<Rightarrow> Inl e
      | Inr k \<Rightarrow>
          if k = [] then Inl EISDIR
          else
            (case d k of
               None \<Rightarrow> Inl ENOENT
             | Some n \<Rightarrow>
                 (case n of
                    File c \<Rightarrow> if trailingSeparator p then Inl ENOTDIR else Inr c
                  | Dir \<Rightarrow> Inl EISDIR
                  | Link t \<Rightarrow> Inl ELOOP)))"

text \<open>\<open>fs.statSync(p).isFile()\<close>, used after \<open>existsSync\<close> only.\<close>

definition isFile :: "filesystem \<Rightarrow> string \<Rightarrow> bool" where
  "isFile d p =
     (case locate d p of
        Inl e \<Rightarrow> False
      | Inr k \<Rightarrow>
          (case d k of
             None \<Rightarrow> False
           | Some n \<Rightarrow>
               (case n of
                  File c \<Rightarrow> \<not> trailingSeparator p
                | Dir \<Rightarrow> False
                | Link t \<Rightarrow> False)))"


definition linkfree :: "filesystem \<Rightarrow> string list \<Rightarrow> bool" where
  "linkfree d k =
     list_all (\<lambda>q. case d q of None \<Rightarrow> True | Some n \<Rightarrow> (case n of Link t \<Rightarrow> False | _ \<Rightarrow> True))
       (prefixes k)"

section \<open>The backend's state\<close>

text \<open>
  server.js keeps one \<open>Map\<close> from preview identifier to container object. Container
  objects are shared: the registry refers to them, and so do the closures of the
  \<open>close\<close> handler of each WebSocket and of the completion callback of each child
  process. They are therefore kept in a store, addressed by allocation number; the
  registry and the closures hold addresses. WebSocket objects and process identifiers
  (\<open>uuidv4()\<close>) are numbered as they are created, which makes each one fresh.

  Two parts of the state belong to the host: the directory tree, and what the host
  answers at once when it is asked to start a command line.
\<close>

type_synonym addr = nat
type_synonym ws = nat
type_synonym process_id = nat

datatype ready_state = CONNECTING | OPEN | CLOSING | CLOSED

record container =
  container_id :: string
  dir :: string
  clients :: "ws list"
  files :: "string \<rightharpoonup> string"
  processes :: "process_id set"

datatype stream = Stdout | Stderr

text \<open>\<open>error.code\<close> of the error \<open>exec\<close> hands to its callback: a number when the child
  exited with a status, a string for a system error, \<open>null\<close> when a signal ended it.\<close>

datatype code = Num int | Str string | Null

datatype event =
    RefreshPreview string
  | PreviewReady string string nat
  | FileChange string string
  | ProcessOutput string process_id string stream
  | ProcessCompleted string process_id code string string

fun event_previewId :: "event \<Rightarrow> string" where
  "event_previewId (RefreshPreview p) = p"
| "event_previewId (PreviewReady p _ _) = p"
| "event_previewId (FileChange p _) = p"
| "event_previewId (ProcessOutput p _ _ _) = p"
| "event_previewId (ProcessCompleted p _ _ _ _) = p"

text \<open>What the closures of a connection and of a running child have captured.\<close>

record connection_closure =
  conn_container :: addr
  conn_previewId :: string

record child_closure =
  child_container :: addr
  child_previewId :: string
  child_command :: string
  child_cwd :: string

record server =
  containers :: "string \<rightharpoonup> addr"
  heap :: "addr \<Rightarrow> container"
  next_addr :: addr
  disk :: filesystem
  readyState :: "ws \<Rightarrow> ready_state"
  next_ws :: ws
  connections :: "ws \<rightharpoonup> connection_closure"
  next_uuid :: process_id
  children :: "process_id \<rightharpoonup> child_closure"
  timers :: "(nat \<times> string) list"
  now :: nat
  sent :: "(ws \<times> event) list"
  spawn_fault :: "string \<Rightarrow> host_error option"

datatype body =
    JsonError string
  | JsonErrorMessage host_error
  | JsonSuccess
  | JsonContent string
  | JsonProcessId process_id
  | SendFile string
  | Html string

datatype response = Response (status: nat) (body: body)

definition ok :: "response \<Rightarrow> bool" where
  "ok r = (200 \<le> status r \<and> status r \<le> 299)"

text \<open>A mutation of the container object at an address.\<close>

definition update_container :: "server \<Rightarrow> addr \<Rightarrow> (container \<Rightarrow> container) \<Rightarrow> server" where
  "update_container st a f = st\<lparr>heap := (heap st)(a := f (heap st a))\<rparr>"

section \<open>Session registry\<close>

definition createContainer :: "server \<Rightarrow> string \<Rightarrow> host_error + (addr \<times> server)" where
  "createContainer st previewId =
     (let containerDir = path_join [''/tmp'', previewId] in
      case mkdirSync (disk st) containerDir of
        Inl e \<Rightarrow> Inl e
      | Inr d \<Rightarrow>
          let a = next_addr st in
          Inr (a, st\<lparr>disk := d,
                     next_addr := Suc a,
                     heap := (heap st)(a :=
                       \<lparr>container_id = previewId, dir = containerDir, clients = [],
                        files = Map.empty, processes = {}\<rparr>)\<rparr>))"

text \<open>
  The get-or-create steps that open the WebSocket handler, the write handler and the
  execute handler:
  \<^verbatim>\<open>let container = containers.get(previewId);
  if (!container) { container = createContainer(previewId); containers.set(previewId, container); }\<close>
\<close>

definition getOrCreate :: "server \<Rightarrow> string \<Rightarrow> host_error + (addr \<times> server)" where
  "getOrCreate st previewId =
     (case containers st previewId of
        Some a \<Rightarrow> Inr (a, st)
      | None \<Rightarrow>
          (case createContainer st previewId of
             Inl e \<Rightarrow> Inl e
           | Inr (a, st') \<Rightarrow> Inr (a, st'\<lparr>containers := (containers st')(previewId \<mapsto> a)\<rparr>)))"

section \<open>Event hub\<close>

definition broadcastToContainer :: "server \<Rightarrow> string \<Rightarrow> event \<Rightarrow> server" where
  "broadcastToContainer st previewId data =
     (case containers st previewId of
        None \<Rightarrow> st
      | Some a \<Rightarrow>
          st\<lparr>sent := sent st @
               map (\<lambda>client. (client, data))
                 (filter (\<lambda>client. readyState st client = OPEN) (clients (heap st a)))\<rparr>)"

section \<open>WebSocket handling\<close>

text \<open>\<open>Set.add\<close> and \<open>Set.delete\<close> on the client set, which is iterated in insertion order.\<close>

definition set_add :: "'a list \<Rightarrow> 'a \<Rightarrow> 'a list" where
  "set_add xs x = (if x \<in> set xs then xs else xs @ [x])"

definition set_delete :: "'a list \<Rightarrow> 'a \<Rightarrow> 'a list" where
  "set_delete xs x = filter (\<lambda>y. y \<noteq> x) xs"

text \<open>
  \<open>wss.on('connection')\<close>. The argument is \<open>url.searchParams.get('previewId')\<close>, absent
  when the query has no such parameter. An exception of \<open>createContainer\<close> is not caught
  here: the result is then the error.
\<close>

definition connection :: "server \<Rightarrow> string option \<Rightarrow> host_error + (ws \<times> server)" where
  "connection st q =
     (let w = next_ws st;
          st0 = st\<lparr>next_ws := Suc w, readyState := (readyState st)(w := OPEN)\<rparr>
      in case q of
           None \<Rightarrow> Inr (w, st0\<lparr>readyState := (readyState st0)(w := CLOSING)\<rparr>)
         | Some previewId \<Rightarrow>
             if previewId = [] then Inr (w, st0\<lparr>readyState := (readyState st0)(w := CLOSING)\<rparr>)
             else
               (case getOrCreate st0 previewId of
                  Inl e \<Rightarrow> Inl e
                | Inr (a, st1) \<Rightarrow>
                    Inr (w, update_container
                              (st1\<lparr>connections := (connections st1)(w \<mapsto>
                                  \<lparr>conn_container = a, conn_previewId = previewId\<rparr>)\<rparr>)
                              a (\<lambda>c. c\<lparr>clients := set_add (clients c) w\<rparr>))))"

text \<open>
  \<open>ws.on('message')\<close>: the argument is the \<open>type\<close> field of the parsed message, absent
  when \<open>JSON.parse\<close> throws or the message has no such field.
\<close>

definition ws_message :: "server \<Rightarrow> ws \<Rightarrow> string option \<Rightarrow> server" where
  "ws_message st w ty =
     (case connections st w of
        None \<Rightarrow> st
      | Some cl \<Rightarrow>
          let previewId = conn_previewId cl in
          if ty = Some ''file-change'' then
            broadcastToContainer st previewId (RefreshPreview previewId)
          else if ty = Some ''preview-ready'' then
            broadcastToContainer st previewId
              (PreviewReady previewId (''/preview/'' @ previewId) (now st))
          else st)"

text \<open>
  \<open>ws.on('close')\<close>. It works on the container object captured when the connection was
  made; the cleanup it schedules looks the identifier up in the registry when it runs.
\<close>

definition ws_close :: "server \<Rightarrow> ws \<Rightarrow> server" where
  "ws_close st w =
     (case connections st w of
        None \<Rightarrow> st
      | Some cl \<Rightarrow>
          let a = conn_container cl;
              st1 = update_container
                      (st\<lparr>readyState := (readyState st)(w := CLOSED),
                          connections := (connections st)(w := None)\<rparr>)
                      a (\<lambda>c. c\<lparr>clients := set_delete (clients c) w\<rparr>)
          in if length (clients (heap st1 a)) = 0
             then st1\<lparr>timers := timers st1 @ [(now st1 + 300000, conn_previewId cl)]\<rparr>
             else st1)"

text \<open>The function given to \<open>setTimeout\<close>.\<close>

definition cleanup :: "server \<Rightarrow> string \<Rightarrow> server" where
  "cleanup st previewId =
     (case containers st previewId of
        None \<Rightarrow> st
      | Some a \<Rightarrow>
          if length (clients (heap st a)) = 0
          then st\<lparr>containers := (containers st)(previewId := None)\<rparr>
          else st)"

text \<open>
  The clock moves to \<open>t\<close>; the timers whose time has come run, in the order in which
  they were set.
\<close>

definition advance :: "server \<Rightarrow> nat \<Rightarrow> server" where
  "advance st t =
     (if t < now st then st
      else
        foldl cleanup
          (st\<lparr>now := t, timers := filter (\<lambda>(deadline, _). t < deadline) (timers st)\<rparr>)
          (map snd (filter (\<lambda>(deadline, _). deadline \<le> t) (timers st))))"

section \<open>File endpoints\<close>

text \<open>
  A request field is absent (\<open>undefined\<close>) or a string; \<open>!filePath\<close> holds for an absent
  and for an empty one. An exception of \<open>createContainer\<close> leaves the handler and is
  answered by Express with status 500.
\<close>

definition files_write :: "server \<Rightarrow> string \<Rightarrow> string option \<Rightarrow> string option \<Rightarrow> response \<times> server" where
  "files_write st previewId path content =
     (case path of
        None \<Rightarrow> (Response 400 (JsonError ''Missing required parameters''), st)
      | Some filePath \<Rightarrow>
          if filePath = [] then (Response 400 (JsonError ''Missing required parameters''), st)
          else
            (case content of
               None \<Rightarrow> (Response 400 (JsonError ''Missing required parameters''), st)
             | Some ct \<Rightarrow>
                 (case getOrCreate st previewId of
                    Inl e \<Rightarrow> (Response 500 (Html ''Internal Server Error''), st)
                  | Inr (a, st1) \<Rightarrow>
                      let fullPath = path_join [dir (heap st1 a), filePath];
                          dirPath = dirname fullPath
                      in (case mkdirSync (disk st1) dirPath of
                           Inl e \<Rightarrow> (Response 500 (JsonErrorMessage e), st1)
                         | Inr d1 \<Rightarrow>
                             (case writeFileSync d1 fullPath ct of
                                Inl e \<Rightarrow> (Response 500 (JsonErrorMessage e), st1\<lparr>disk := d1\<rparr>)
                              | Inr d2 \<Rightarrow>
                                  let st2 = update_container (st1\<lparr>disk := d2\<rparr>) a
                                              (\<lambda>c. c\<lparr>files := (files c)(filePath \<mapsto> ct)\<rparr>)
                                  in (Response 200 JsonSuccess,
                                      broadcastToContainer st2 previewId
                                        (FileChange previewId filePath)))))))"

definition files_read :: "server \<Rightarrow> string \<Rightarrow> string option \<Rightarrow> response \<times> server" where
  "files_read st previewId path =
     (case path of
        None \<Rightarrow> (Response 400 (JsonError ''Missing path parameter''), st)
      | Some filePath \<Rightarrow>
          if filePath = [] then (Response 400 (JsonError ''Missing path parameter''), st)
          else
            (case containers st previewId of
               None \<Rightarrow> (Response 404 (JsonError ''Container not found''), st)
             | Some a \<Rightarrow>
                 (case files (heap st a) filePath of
                    Some ct \<Rightarrow> (Response 200 (JsonContent ct), st)
                  | None \<Rightarrow>
                      let fullPath = path_join [dir (heap st a), filePath] in
                      if existsSync (disk st) fullPath then
                        (case readFileSync (disk st) fullPath of
                           Inl e \<Rightarrow> (Response 500 (JsonErrorMessage e), st)
                         | Inr ct \<Rightarrow>
                             (Response 200 (JsonContent ct),
                              update_container st a
                                (\<lambda>c. c\<lparr>files := (files c)(filePath \<mapsto> ct)\<rparr>)))
                      else (Response 404 (JsonError ''File not found''), st))))"

section \<open>Process executor\<close>

text \<open>\<open>Array.prototype.join\<close>\<close>

fun array_join :: "string \<Rightarrow> string list \<Rightarrow> string" where
  "array_join sep [] = []"
| "array_join sep [s] = s"
| "array_join sep (s # t # ss) = s @ sep @ array_join sep (t # ss)"

text \<open>
  \<open>child_process.exec\<close> hands the command line to a shell and returns the child object at
  once; what happens to the command, a shell that does not find it included, is
  reported later, through the callback. The call itself throws for a command line or
  a working directory with a NUL character, and when the host cannot start a process
  at all.
\<close>

definition exec :: "server \<Rightarrow> string \<Rightarrow> string \<Rightarrow> host_error option" where
  "exec st command cwd =
     (if CHR 0x00 \<in> set command \<or> CHR 0x00 \<in> set cwd then Some ERR_INVALID_ARG_VALUE
      else spawn_fault st command)"

text \<open>
  The execute handler. The child is recorded with what its callback and its output
  listeners have captured. Everything from \<open>uuidv4()\<close> on is inside the \<open>try\<close> block,
  whose \<open>catch\<close> answers with status 500.
\<close>

definition execute ::
  "server \<Rightarrow> string \<Rightarrow> string option \<Rightarrow> string list option \<Rightarrow> string option \<Rightarrow> response \<times> server" where
  "execute st previewId command args cwd =
     (case command of
        None \<Rightarrow> (Response 400 (JsonError ''Missing command parameter''), st)
      | Some cmd \<Rightarrow>
          if cmd = [] then (Response 400 (JsonError ''Missing command parameter''), st)
          else
            (case getOrCreate st previewId of
               Inl e \<Rightarrow> (Response 500 (Html ''Internal Server Error''), st)
             | Inr (a, st1) \<Rightarrow>
                 let processId = next_uuid st1;
                     st2 = st1\<lparr>next_uuid := Suc processId\<rparr>;
                     workingDir = path_join [dir (heap st2 a),
                                    (case cwd of None \<Rightarrow> ''/'' | Some c \<Rightarrow> c)]
                 in (case mkdirSync (disk st2) workingDir of
                      Inl e \<Rightarrow> (Response 500 (JsonErrorMessage e), st2)
                    | Inr d \<Rightarrow>
                        let st3 = st2\<lparr>disk := d\<rparr>;
                            line = cmd @ '' '' @ array_join '' ''
                                     (case args of None \<Rightarrow> [] | Some as \<Rightarrow> as)
                        in (case exec st3 line workingDir of
                              Some e \<Rightarrow> (Response 500 (JsonErrorMessage e), st3)
                            | None \<Rightarrow>
                                let childProcess =
                                      \<lparr>child_container = a, child_previewId = previewId,
                                       child_command = line, child_cwd = workingDir\<rparr>
                                in (Response 200 (JsonProcessId processId),
                                    update_container
                                      (st3\<lparr>children := (children st3)(processId \<mapsto> childProcess)\<rparr>)
                                      a (\<lambda>c. c\<lparr>processes := insert processId (processes c)\<rparr>))))))"

text \<open>
  The callback given to \<open>exec\<close>, called once when the child is gone. Its first argument
  is \<open>null\<close> or an error, of which only \<open>error.code\<close> is read.
\<close>

definition exec_callback ::
  "server \<Rightarrow> process_id \<Rightarrow> code option \<Rightarrow> string \<Rightarrow> string \<Rightarrow> server" where
  "exec_callback st processId error out err =
     (case children st processId of
        None \<Rightarrow> st
      | Some ch \<Rightarrow>
          let a = child_container ch;
              previewId = child_previewId ch;
              st1 = update_container
                      (st\<lparr>children := (children st)(processId := None)\<rparr>)
                      a (\<lambda>c. c\<lparr>processes := processes c - {processId}\<rparr>)
          in broadcastToContainer st1 previewId
               (ProcessCompleted previewId processId
                  (case error of None \<Rightarrow> Num 0 | Some c \<Rightarrow> c) out err))"


text \<open>\<open>childProcess.stdout.on('data')\<close> and \<open>childProcess.stderr.on('data')\<close>\<close>

definition process_data :: "server \<Rightarrow> process_id \<Rightarrow> stream \<Rightarrow> string \<Rightarrow> server" where
  "process_data st processId strm chunk =
     (case children st processId of
        None \<Rightarrow> st
      | Some ch \<Rightarrow>
          broadcastToContainer st (child_previewId ch)
            (ProcessOutput (child_previewId ch) processId chunk strm))"

section \<open>Preview endpoints\<close>

definition preview :: "server \<Rightarrow> string \<Rightarrow> response \<times> server" where
  "preview st previewId =
     (case containers st previewId of
        None \<Rightarrow> (Response 404 (Html ''Preview not found''), st)
      | Some a \<Rightarrow>
          let indexPath = path_join [dir (heap st a), ''index.html''] in
          if existsSync (disk st) indexPath then (Response 200 (SendFile indexPath), st)
          else (Response 200 (Html (''Preview '' @ previewId)), st))"

definition preview_file :: "server \<Rightarrow> string \<Rightarrow> string \<Rightarrow> response \<times> server" where
  "preview_file st previewId filePath =
     (case containers st previewId of
        None \<Rightarrow> (Response 404 (Html ''Preview not found''), st)
      | Some a \<Rightarrow>
          let fullPath = path_join [dir (heap st a), filePath] in
          if existsSync (disk st) fullPath \<and> isFile (disk st) fullPath
          then (Response 200 (SendFile fullPath), st)
          else (Response 404 (Html ''File not found''), st))"

section \<open>Routing\<close>

text \<open>
  The routes server.js registers, in its order. A request that matches none of them
  reaches the end of Express's handler chain and is answered with status 404.
\<close>

datatype verb = GET | POST

record request =
  req_method :: verb
  req_path :: string
  query_path :: "string option"
  body_path :: "string option"
  body_content :: "string option"
  body_recursive :: "bool option"
  body_command :: "string option"
  body_args :: "string list option"
  body_cwd :: "string option"

definition dispatch :: "server \<Rightarrow> request \<Rightarrow> response \<times> server" where
  "dispatch st req =
     (let segs = segments (req_path req); m = req_method req in
      if m = POST \<and> length segs = 5 \<and> take 4 segs = [[], ''api'', ''files'', ''write'']
         \<and> segs ! 4 \<noteq> []
      then files_write st (segs ! 4) (body_path req) (body_content req)
      else if m = GET \<and> length segs = 5 \<and> take 4 segs = [[], ''api'', ''files'', ''read'']
         \<and> segs ! 4 \<noteq> []
      then files_read st (segs ! 4) (query_path req)
      else if m = POST \<and> length segs = 4 \<and> take 3 segs = [[], ''api'', ''execute'']
         \<and> segs ! 3 \<noteq> []
      then execute st (segs ! 3) (body_command req) (body_args req) (body_cwd req)
      else if m = GET \<and> length segs = 3 \<and> take 2 segs = [[], ''preview''] \<and> segs ! 2 \<noteq> []
      then preview st (segs ! 2)
      else if m = GET \<and> 4 \<le> length segs \<and> take 2 segs = [[], ''preview''] \<and> segs ! 2 \<noteq> []
      then preview_file st (segs ! 2) (joinSegments (drop 3 segs))
      else (Response 404 (Html ''Not Found''), st))"

section \<open>Remote session client\<close>

text \<open>
  The file operations of the facade in \<open>app/lib/webcontainer/index.ts\<close>. Each one sends
  a request and throws an \<open>Error\<close> when the response is not \<open>ok\<close>; the request is taken
  to reach the backend.
\<close>

definition empty_request :: request where
  "empty_request =
     \<lparr>req_method = GET, req_path = [], query_path = None, body_path = None,
      body_content = None, body_recursive = None, body_command = None,
      body_args = None, body_cwd = None\<rparr>"

definition readFile :: "server \<Rightarrow> string \<Rightarrow> string \<Rightarrow> (string + string) \<times> server" where
  "readFile st previewId path =
     (case dispatch st (empty_request\<lparr>req_method := GET,
                          req_path := ''/api/files/read/'' @ previewId,
                          query_path := Some path\<rparr>) of
        (response, st') \<Rightarrow>
          if \<not> ok response then (Inl (''Failed to read file: '' @ path), st')
          else (case body response of
                  JsonContent ct \<Rightarrow> (Inr ct, st')
                | _ \<Rightarrow> (Inl ''undefined'', st')))"

definition writeFile :: "server \<Rightarrow> string \<Rightarrow> string \<Rightarrow> string \<Rightarrow> (string + unit) \<times> server" where
  "writeFile st previewId path content =
     (case dispatch st (empty_request\<lparr>req_method := POST,
                          req_path := ''/api/files/write/'' @ previewId,
                          body_path := Some path, body_content := Some content\<rparr>) of
        (response, st') \<Rightarrow>
          if \<not> ok response then (Inl (''Failed to write file: '' @ path), st')
          else (Inr (), st'))"

definition rm :: "server \<Rightarrow> string \<Rightarrow> string \<Rightarrow> bool option \<Rightarrow> (string + unit) \<times> server" where
  "rm st previewId path recursive =
     (case dispatch st (empty_request\<lparr>req_method := POST,
                          req_path := ''/api/files/rm/'' @ previewId,
                          body_path := Some path, body_recursive := recursive\<rparr>) of
        (response, st') \<Rightarrow>
          if \<not> ok response then (Inl (''Failed to remove: '' @ path), st')
          else (Inr (), st'))"

section \<open>The backend as it starts\<close>

definition init :: server where
  "init =
     \<lparr>containers = Map.empty,
      heap = (\<lambda>_. \<lparr>container_id = [], dir = [], clients = [], files = Map.empty,
                   processes = {}\<rparr>),
      next_addr = 0, disk = Map.empty, readyState = (\<lambda>_. CONNECTING), next_ws = 0,
      connections = Map.empty, next_uuid = 0, children = Map.empty, timers = [],
      now = 0, sent = [], spawn_fault = (\<lambda>_. None)\<rparr>"

section \<open>Runs of the backend\<close>

text \<open>
  What one call of \<open>broadcastToContainer\<close> and the handler around it hand to
  \<open>client.send\<close>, and the clients registered under an identifier.
\<close>

definition deliveries :: "server \<Rightarrow> server \<Rightarrow> (ws \<times> event) list" where
  "deliveries st st' = drop (length (sent st)) (sent st')"

definition registered :: "server \<Rightarrow> string \<Rightarrow> ws list" where
  "registered st previewId =
     (case containers st previewId of None \<Rightarrow> [] | Some a \<Rightarrow> clients (heap st a))"

text \<open>
  One step is one run of a handler, a callback or a timer batch, or a change from
  outside: of a socket's ready state, or of the host, where the commands that were
  started and other processes change the directory tree in any way, links included.
  A step is labelled with the session identifier its handler works for. A connection
  whose handler throws ends the process and is no step; a message or a callback with
  no closure left changes nothing.
\<close>

inductive step :: "server \<Rightarrow> string option \<Rightarrow> server \<Rightarrow> bool" where
  on_connection: "connection st q = Inr (w, st') \<Longrightarrow> step st q st'"
| on_message: "connections st w = Some cl \<Longrightarrow>
     step st (Some (conn_previewId cl)) (ws_message st w ty)"
| on_close: "step st None (ws_close st w)"
| on_socket: "step st None (st\<lparr>readyState := (readyState st)(w := rs)\<rparr>)"
| on_host: "step st None (st\<lparr>disk := d, spawn_fault := f\<rparr>)"
| on_timers: "step st None (advance st t)"
| on_write: "step st (Some p) (snd (files_write st p path content))"
| on_read: "step st (Some p) (snd (files_read st p path))"
| on_execute: "step st (Some p) (snd (execute st p command args cwd))"
| on_callback: "children st p = Some ch \<Longrightarrow>
     step st (Some (child_previewId ch)) (exec_callback st p error out err)"
| on_data: "children st p = Some ch \<Longrightarrow>
     step st (Some (child_previewId ch)) (process_data st p strm chunk)"

inductive reachable :: "server \<Rightarrow> bool" where
  boot: "reachable (init\<lparr>disk := d, spawn_fault := f\<rparr>)"
| after: "reachable st \<Longrightarrow> step st origin st' \<Longrightarrow> reachable st'"

text \<open>
  What holds in every reachable state: a registered container lies below the allocation
  mark and has the identifier and the directory \<open>createContainer\<close> gave it; sockets
  with a closure and running children are numbered below their marks; a client set has
  no duplicates, each of its members has a closure that captured this very container,
  and each member of a process set is a running child that captured this container.
\<close>

definition inv_registry :: "server \<Rightarrow> bool" where
  "inv_registry st =
     ((\<forall>p a. containers st p = Some a \<longrightarrow>
          a < next_addr st \<and> container_id (heap st a) = p
          \<and> dir (heap st a) = path_join [''/tmp'', p])
      \<and> (\<forall>w cl. connections st w = Some cl \<longrightarrow> w < next_ws st)
      \<and> (\<forall>p ch. children st p = Some ch \<longrightarrow> p < next_uuid st))"

definition inv_members :: "server \<Rightarrow> bool" where
  "inv_members st =
     (\<forall>a. distinct (clients (heap st a))
        \<and> (\<forall>w \<in> set (clients (heap st a)).
              \<exists>cl. connections st w = Some cl \<and> conn_container cl = a)
        \<and> (\<forall>p \<in> processes (heap st a).
              \<exists>ch. children st p = Some ch \<and> child_container ch = a))"

definition inv :: "server \<Rightarrow> bool" where
  "inv st = (inv_registry st \<and> inv_members st)"

text \<open>A step sends nothing, or it ends in one broadcast for its own session.\<close>

definition broadcasts :: "server \<Rightarrow> string option \<Rightarrow> server \<Rightarrow> bool" where
  "broadcasts st origin st' =
     (sent st' = sent st \<or>
      (\<exists>st1 p ev. inv st1 \<and> sent st1 = sent st \<and> event_previewId ev = p
          \<and> origin = Some p \<and> st' = broadcastToContainer st1 p ev))"

text \<open>Two sessions with one client each, made by two connections.\<close>

definition one_client :: server where
  "one_client = (case connection init (Some ''a'') of Inr (w, st) \<Rightarrow> st | Inl e \<Rightarrow> init)"

definition two_sessions :: server where
  "two_sessions =
     (case connection one_client (Some ''b'') of Inr (w, st) \<Rightarrow> st | Inl e \<Rightarrow> init)"

section \<open>Process completion over a run\<close>

text \<open>
  The \<open>process-completed\<close> messages a client has been sent for a process; runs of several
  steps; a process whose callback has run, and one that has not run yet or has not
  been spawned.
\<close>

fun is_completed :: "process_id \<Rightarrow> event \<Rightarrow> bool" where
  "is_completed p (ProcessCompleted _ q _ _ _) = (q = p)"
| "is_completed p _ = False"

definition completions :: "server \<Rightarrow> ws \<Rightarrow> process_id \<Rightarrow> (ws \<times> event) list" where
  "completions st c p = filter (\<lambda>d. fst d = c \<and> is_completed p (snd d)) (sent st)"


definition finished :: "server \<Rightarrow> process_id \<Rightarrow> bool" where
  "finished st p = (children st p = None \<and> p < next_uuid st)"

definition unstarted :: "server \<Rightarrow> process_id \<Rightarrow> bool" where
  "unstarted st p = (children st p \<noteq> None \<or> next_uuid st \<le> p)"

text \<open>A session with a running \<open>echo hello\<close>, and one holding a file \<open>f\<close>.\<close>

definition spawned :: server where
  "spawned = snd (execute one_client ''a'' (Some ''echo'') (Some [''hello'']) None)"

definition with_file :: server where
  "with_file = snd (files_write one_client ''a'' (Some ''f'') (Some ''x''))"

section \<open>When a spawn request is served\<close>

text \<open>
  The working directory the execute handler makes, the command line it hands to
  \<open>exec\<close>, and the conditions under which a child is started: a non-empty command, a
  session, a working directory, and an \<open>exec\<close> that does not throw.
\<close>

definition workingDir :: "container \<Rightarrow> string option \<Rightarrow> string" where
  "workingDir c cwd = path_join [dir c, (case cwd of None \<Rightarrow> ''/'' | Some d \<Rightarrow> d)]"

definition commandLine :: "string \<Rightarrow> string list option \<Rightarrow> string" where
  "commandLine cmd args = cmd @ '' '' @ array_join '' '' (case args of None \<Rightarrow> [] | Some as \<Rightarrow> as)"

definition spawnable ::
  "server \<Rightarrow> string \<Rightarrow> string option \<Rightarrow> string list option \<Rightarrow> string option \<Rightarrow> bool" where
  "spawnable st previewId command args cwd =
     (case command of
        None \<Rightarrow> False
      | Some cmd \<Rightarrow>
          cmd \<noteq> [] \<and>
          (case getOrCreate st previewId of
             Inl e \<Rightarrow> False
           | Inr (a, st1) \<Rightarrow>
               (case mkdirSync (disk st1) (workingDir (heap st1 a) cwd) of
                  Inl e \<Rightarrow> False
                | Inr d \<Rightarrow>
                    exec (st1\<lparr>disk := d\<rparr>) (commandLine cmd args) (workingDir (heap st1 a) cwd)
                      = None)))"

section \<open>Sockets and the containers they captured\<close>

text \<open>
  A further fact of every reachable state: a socket that still has its \<open>close\<close> handler
  is a client of the container it captured, and that container is the one registered
  under the socket's identifier.
\<close>

definition inv_live :: "server \<Rightarrow> bool" where
  "inv_live st =
     (\<forall>w cl. connections st w = Some cl \<longrightarrow>
        containers st (conn_previewId cl) = Some (conn_container cl)
        \<and> w \<in> set (clients (heap st (conn_container cl))))"

text \<open>
  A run in which a client leaves at time 0, another joins at 100000 and leaves at
  200000, and the clock reaches 300000.
\<close>

definition grace_run1 :: server where
  "grace_run1 = ws_close one_client 0"

definition grace_run2 :: server where
  "grace_run2 =
     (case connection (advance grace_run1 100000) (Some ''a'') of
        Inr (w, st) \<Rightarrow> st | Inl e \<Rightarrow> init)"

definition grace_run3 :: server where
  "grace_run3 = ws_close (advance grace_run2 200000) 1"

definition grace_run4 :: server where
  "grace_run4 = advance grace_run3 300000"

section \<open>Plain path segments\<close>

text \<open>A segment that normalisation keeps as it is.\<close>

definition plain :: "string \<Rightarrow> bool" where
  "plain s = (s \<noteq> [] \<and> s \<noteq> ''.'' \<and> s \<noteq> ''..'' \<and> CHR ''/'' \<notin> set s)"

section \<open>Paths that climb\<close>

text \<open>
  A supplied path climbs when its \<open>..\<close> segments lead above the place it starts from.
\<close>

definition climbs :: "string \<Rightarrow> bool" where
  "climbs p = (''..'' \<in> set (normalizeSegments True (segments p)))"

text \<open>Two sessions, the second holding \<open>secret.txt\<close>.\<close>

definition with_secret :: server where
  "with_secret = snd (files_write two_sessions ''b'' (Some ''secret.txt'') (Some ''TOP''))"

text \<open>
  The same, after a command started in session \<open>a\<close> has run \<open>ln -s /tmp/b/secret.txt link\<close>
  in its working directory.
\<close>

definition with_link :: server where
  "with_link =
     with_secret\<lparr>disk := (disk with_secret)
        ([''tmp'', ''a'', ''link''] \<mapsto> Link ''/tmp/b/secret.txt'')\<rparr>"

section \<open>Basic facts\<close>

lemmas path_defs = path_join_def normalize_def normalizeString_def normalizeSegments_def
  normalizeStep_def isAbsolute_def trailingSeparator_def resolve_def dirname_def

lemma broadcast_frame [simp]:
  "containers (broadcastToContainer st p e) = containers st"
  "heap (broadcastToContainer st p e) = heap st"
  "next_addr (broadcastToContainer st p e) = next_addr st"
  "disk (broadcastToContainer st p e) = disk st"
  "readyState (broadcastToContainer st p e) = readyState st"
  "next_ws (broadcastToContainer st p e) = next_ws st"
  "connections (broadcastToContainer st p e) = connections st"
  "next_uuid (broadcastToContainer st p e) = next_uuid st"
  "children (broadcastToContainer st p e) = children st"
  "timers (broadcastToContainer st p e) = timers st"
  "now (broadcastToContainer st p e) = now st"
  "spawn_fault (broadcastToContainer st p e) = spawn_fault st"
  by (simp_all add: broadcastToContainer_def split: option.split)

lemma update_container_frame [simp]:
  "containers (update_container st a f) = containers st"
  "heap (update_container st a f) = (heap st)(a := f (heap st a))"
  "next_addr (update_container st a f) = next_addr st"
  "disk (update_container st a f) = disk st"
  "readyState (update_container st a f) = readyState st"
  "next_ws (update_container st a f) = next_ws st"
  "connections (update_container st a f) = connections st"
  "next_uuid (update_container st a f) = next_uuid st"
  "children (update_container st a f) = children st"
  "timers (update_container st a f) = timers st"
  "now (update_container st a f) = now st"
  "sent (update_container st a f) = sent st"
  "spawn_fault (update_container st a f) = spawn_fault st"
  by (simp_all add: update_container_def)

section \<open>Facts about paths\<close>

lemma segments_not_Nil [simp]: "segments s \<noteq> []"
  by (induction s) auto

lemma segments_append_slash:
  "segments (a @ CHR ''/'' # b) = segments a @ segments b"
  by (induction a) auto

lemma segments_no_slash: "CHR ''/'' \<notin> set s \<Longrightarrow> segments s = [s]"
  by (induction s) auto

lemma segments_elements: "s \<in> set (segments p) \<Longrightarrow> CHR ''/'' \<notin> set s"
proof (induction p arbitrary: s)
  case Nil
  then show ?case by simp
next
  case (Cons c p)
  show ?case
  proof (cases "c = CHR ''/''")
    case True
    with Cons show ?thesis by auto
  next
    case False
    obtain h t where ht: "segments p = h # t" by (cases "segments p") auto
    with Cons False show ?thesis by auto
  qed
qed

lemma segments_joinSegments:
  "xs \<noteq> [] \<Longrightarrow> \<forall>s \<in> set xs. CHR ''/'' \<notin> set s \<Longrightarrow> segments (joinSegments xs) = xs"
proof (induction xs rule: joinSegments.induct)
  case 1
  then show ?case by simp
next
  case (2 s)
  then show ?case by (simp add: segments_no_slash)
next
  case (3 s t ss)
  then show ?case
    using segments_append_slash [of s "joinSegments (t # ss)"]
    by (simp add: segments_no_slash)
qed

lemma joinSegments_Nil: "\<forall>s \<in> set xs. s \<noteq> [] \<Longrightarrow> joinSegments xs = [] \<longleftrightarrow> xs = []"
  by (induction xs rule: joinSegments.induct) auto

lemma normalizeStep_plain [simp]: "plain s \<Longrightarrow> normalizeStep b res s = res @ [s]"
  by (simp add: normalizeStep_def plain_def)

lemma normalizeStep_skip [simp]:
  "normalizeStep b res [] = res" "normalizeStep b res ''.'' = res"
  by (simp_all add: normalizeStep_def)

lemma foldl_plain: "\<forall>s \<in> set xs. plain s \<Longrightarrow> foldl (normalizeStep b) acc xs = acc @ xs"
  by (induction xs arbitrary: acc) simp_all

lemma normalizeStep_elements:
  assumes "\<forall>s \<in> set res. plain s" "CHR ''/'' \<notin> set x"
  shows "\<forall>s \<in> set (normalizeStep False res x). plain s"
proof -
  have "set (butlast res) \<subseteq> set res" by (auto dest: in_set_butlastD)
  with assms show ?thesis
    by (auto simp add: normalizeStep_def plain_def)
qed

lemma foldl_normalize_plain:
  "\<forall>s \<in> set acc. plain s \<Longrightarrow> \<forall>x \<in> set xs. CHR ''/'' \<notin> set x \<Longrightarrow>
     \<forall>s \<in> set (foldl (normalizeStep False) acc xs). plain s"
proof (induction xs arbitrary: acc)
  case Nil
  then show ?case by simp
next
  case (Cons x xs)
  have 1: "\<forall>s \<in> set (normalizeStep False acc x). plain s"
    by (rule normalizeStep_elements) (use Cons.prems in auto)
  have 2: "\<forall>x \<in> set xs. CHR ''/'' \<notin> set x"
    using Cons.prems(2) by auto
  show ?case
    unfolding foldl.simps by (rule Cons.IH [OF 1 2])
qed

lemma resolve_plain: "\<forall>s \<in> set (resolve p). plain s"
  unfolding resolve_def normalizeSegments_def
  by (rule foldl_normalize_plain) (auto dest: segments_elements)

lemma plain_no_slash: "\<forall>s \<in> set xs. plain s \<Longrightarrow> \<forall>s \<in> set xs. CHR ''/'' \<notin> set s"
  by (auto simp add: plain_def)

lemma plain_nonempty: "\<forall>s \<in> set xs. plain s \<Longrightarrow> \<forall>s \<in> set xs. s \<noteq> []"
  by (auto simp add: plain_def)

text \<open>The shape of an absolute path after normalisation.\<close>

lemma normalize_absolute:
  assumes "isAbsolute p"
  shows "normalize p =
           (if resolve p = [] then ''/''
            else CHR ''/'' # joinSegments (resolve p) @ (if trailingSeparator p then ''/'' else []))"
proof -
  have ne: "p \<noteq> []" using assms by (auto simp add: isAbsolute_def)
  have "joinSegments (resolve p) = [] \<longleftrightarrow> resolve p = []"
    by (rule joinSegments_Nil) (rule plain_nonempty [OF resolve_plain])
  then show ?thesis
    using assms ne
    by (simp add: normalize_def normalizeString_def resolve_def Let_def)
qed

lemma segments_slash_join:
  assumes "xs \<noteq> []" "\<forall>s \<in> set xs. plain s"
  shows "segments (CHR ''/'' # joinSegments xs) = [] # xs"
    and "segments (CHR ''/'' # joinSegments xs @ ''/'') = [] # xs @ [[]]"
proof -
  have j: "segments (joinSegments xs) = xs"
    by (rule segments_joinSegments [OF assms(1) plain_no_slash [OF assms(2)]])
  show "segments (CHR ''/'' # joinSegments xs) = [] # xs"
    using j by simp
  show "segments (CHR ''/'' # joinSegments xs @ ''/'') = [] # xs @ [[]]"
    using segments_append_slash [of "joinSegments xs" "[]"] j by simp
qed

lemma resolve_slash_join:
  assumes "\<forall>s \<in> set xs. plain s"
  shows "resolve (CHR ''/'' # joinSegments xs) = xs"
    and "xs \<noteq> [] \<Longrightarrow> resolve (CHR ''/'' # joinSegments xs @ ''/'') = xs"
proof -
  show "resolve (CHR ''/'' # joinSegments xs) = xs"
  proof (cases "xs = []")
    case True
    then show ?thesis by (simp add: resolve_def normalizeSegments_def)
  next
    case False
    then show ?thesis
      using segments_slash_join(1) [OF False assms] foldl_plain [OF assms, of False "[]"]
      by (simp add: resolve_def normalizeSegments_def)
  qed
  show "resolve (CHR ''/'' # joinSegments xs @ ''/'') = xs" if "xs \<noteq> []"
    using segments_slash_join(2) [OF that assms] foldl_plain [OF assms, of False "[]"]
    by (simp add: resolve_def normalizeSegments_def)
qed

lemma resolve_normalize: "isAbsolute p \<Longrightarrow> resolve (normalize p) = resolve p"
  using resolve_slash_join [OF resolve_plain, of p]
  by (auto simp add: normalize_absolute resolve_def normalizeSegments_def)

lemma isAbsolute_normalize: "isAbsolute p \<Longrightarrow> isAbsolute (normalize p)"
  by (simp add: normalize_absolute) (simp add: isAbsolute_def)

lemma path_join_two:
  "root \<noteq> [] \<Longrightarrow> path_join [root, p] = normalize (if p = [] then root else root @ CHR ''/'' # p)"
  by (simp add: path_join_def)

lemma isAbsolute_append: "isAbsolute root \<Longrightarrow> isAbsolute (root @ x)"
  by (cases root) (simp_all add: isAbsolute_def)

lemma isAbsolute_path_join: "isAbsolute root \<Longrightarrow> isAbsolute (path_join [root, p])"
proof -
  assume a: "isAbsolute root"
  then have "root \<noteq> []" by (auto simp add: isAbsolute_def)
  then show ?thesis
    using a isAbsolute_normalize [of root] isAbsolute_normalize [OF isAbsolute_append [OF a, of "CHR ''/'' # p"]]
    by (simp add: path_join_two)
qed

lemma isAbsolute_container_dir: "isAbsolute (path_join [''/tmp'', previewId])"
  by (rule isAbsolute_path_join) (simp add: isAbsolute_def)

lemma resolve_append:
  "resolve (root @ CHR ''/'' # p) = foldl (normalizeStep False) (resolve root) (segments p)"
  by (simp add: resolve_def normalizeSegments_def segments_append_slash)

lemma resolve_path_join:
  assumes "isAbsolute root"
  shows "resolve (path_join [root, p]) = foldl (normalizeStep False) (resolve root) (segments p)"
proof -
  have ne: "root \<noteq> []" using assms by (auto simp add: isAbsolute_def)
  show ?thesis
  proof (cases "p = []")
    case True
    then show ?thesis
      using ne resolve_normalize [OF assms] by (simp add: path_join_two)
  next
    case False
    then show ?thesis
      using ne resolve_normalize [OF isAbsolute_append [OF assms, of "CHR ''/'' # p"]]
      by (simp add: path_join_two resolve_append)
  qed
qed

text \<open>Climbing: a \<open>..\<close> that stays in the result once it is there.\<close>

lemma dotdot_stays:
  "''..'' \<in> set acc \<Longrightarrow> ''..'' \<in> set (foldl (normalizeStep True) acc xs)"
proof (induction xs arbitrary: acc)
  case Nil
  then show ?case by simp
next
  case (Cons x xs)
  have "''..'' \<in> set (normalizeStep True acc x)"
  proof (cases "x = ''..'' \<and> acc \<noteq> [] \<and> last acc \<noteq> ''..''")
    case True
    then have "normalizeStep True acc x = butlast acc" by (simp add: normalizeStep_def)
    moreover have "''..'' \<in> set (butlast acc)"
      using Cons.prems True by (metis append_butlast_last_id in_set_conv_decomp
          rotate1.simps(2) set_ConsD set_rotate1)
    ultimately show ?thesis by simp
  next
    case False
    with Cons.prems show ?thesis by (auto simp add: normalizeStep_def)
  qed
  then show ?case unfolding foldl.simps by (rule Cons.IH)
qed

lemma foldl_below_root:
  "''..'' \<notin> set (foldl (normalizeStep True) acc xs) \<Longrightarrow>
     foldl (normalizeStep False) (root @ acc) xs = root @ foldl (normalizeStep True) acc xs"
proof (induction xs arbitrary: acc)
  case Nil
  then show ?case by simp
next
  case (Cons x xs)
  have n: "''..'' \<notin> set (normalizeStep True acc x)"
    using Cons.prems dotdot_stays [of "normalizeStep True acc x" xs] by auto
  have "normalizeStep False (root @ acc) x = root @ normalizeStep True acc x"
  proof (cases "x = ''..''")
    case False
    then show ?thesis by (simp add: normalizeStep_def)
  next
    case True
    with n have a: "acc \<noteq> []" "last acc \<noteq> ''..''"
      by (auto simp add: normalizeStep_def split: if_splits)
    with True show ?thesis by (simp add: normalizeStep_def butlast_append)
  qed
  then show ?case using Cons.IH [OF _] n Cons.prems by simp
qed

lemma joinSegments_snoc:
  "joinSegments (xs @ [s]) = (if xs = [] then s else joinSegments xs @ CHR ''/'' # s)"
  by (induction xs rule: joinSegments.induct) auto

lemma dirname_slash_join:
  assumes "\<forall>s \<in> set (xs @ [s]). plain s" "t = [] \<or> t = ''/''"
  shows "dirname (CHR ''/'' # joinSegments (xs @ [s]) @ t) = CHR ''/'' # joinSegments xs"
proof -
  have s: "s \<noteq> []" "CHR ''/'' \<notin> set s" using assms(1) by (auto simp add: plain_def)
  let ?q = "CHR ''/'' # joinSegments (xs @ [s]) @ t"
  let ?tail = "if xs = [] then [] else CHR ''/'' # rev (joinSegments xs)"
  have rv: "rev (tl ?q) = rev t @ rev s @ ?tail"
    by (simp add: joinSegments_snoc)
  have d1: "dropWhile (\<lambda>c. c = CHR ''/'') (rev t @ rev s @ ?tail) = rev s @ ?tail"
  proof -
    have "dropWhile (\<lambda>c. c = CHR ''/'') (rev t @ rev s @ ?tail)
            = dropWhile (\<lambda>c. c = CHR ''/'') (rev s @ ?tail)"
      using assms(2) by auto
    also have "\<dots> = rev s @ ?tail"
      using s by (cases "rev s") (auto simp add: rev_is_Nil_conv)
    finally show ?thesis .
  qed
  have d2: "dropWhile (\<lambda>c. c \<noteq> CHR ''/'') (rev s @ ?tail) = ?tail"
  proof -
    have "dropWhile (\<lambda>c. c \<noteq> CHR ''/'') (rev s @ ?tail) = dropWhile (\<lambda>c. c \<noteq> CHR ''/'') ?tail"
      by (rule dropWhile_append2) (use s in auto)
    then show ?thesis by simp
  qed
  show ?thesis
  proof (cases "xs = []")
    case True
    then show ?thesis
      unfolding dirname_def Let_def rv d1 d2 by (simp add: isAbsolute_def)
  next
    case False
    have "joinSegments xs \<noteq> []"
      using joinSegments_Nil [of xs] plain_nonempty assms(1) False by auto
    then have len: "length (joinSegments xs) \<noteq> 0" by simp
    have "dirname ?q = take (Suc (length (joinSegments xs))) ?q"
      unfolding dirname_def Let_def rv d1 d2 using False len by (simp add: isAbsolute_def)
    also have "\<dots> = CHR ''/'' # joinSegments xs"
      using False by (simp add: joinSegments_snoc)
    finally show ?thesis .
  qed
qed

lemma dirname_root: "dirname ''/'' = ''/''"
  by (simp add: dirname_def isAbsolute_def)

lemma resolve_dirname_normalize:
  assumes "isAbsolute p"
  shows "resolve (dirname (normalize p)) = butlast (resolve p)"
proof (cases "resolve p = []")
  case True
  then show ?thesis
    using assms by (simp add: normalize_absolute dirname_root resolve_def normalizeSegments_def)
next
  case False
  then obtain xs s where n: "resolve p = xs @ [s]"
    by (metis append_butlast_last_id)
  have pl: "\<forall>s \<in> set (xs @ [s]). plain s" using resolve_plain [of p] n by simp
  then have plx: "\<forall>s \<in> set xs. plain s" by simp
  have "dirname (normalize p) = CHR ''/'' # joinSegments xs"
    using dirname_slash_join [OF pl, of "if trailingSeparator p then ''/'' else []"] assms False n
    by (simp add: normalize_absolute)
  then show ?thesis
    using resolve_slash_join(1) [OF plx] n by simp
qed

lemma resolve_dirname_path_join:
  assumes "isAbsolute root"
  shows "resolve (dirname (path_join [root, p])) = butlast (resolve (path_join [root, p]))"
proof -
  have ne: "root \<noteq> []" using assms by (auto simp add: isAbsolute_def)
  let ?j = "if p = [] then root else root @ CHR ''/'' # p"
  have a: "isAbsolute ?j" using assms isAbsolute_append [OF assms] by simp
  show ?thesis
    using resolve_dirname_normalize [OF a] resolve_normalize [OF a] ne
    by (simp add: path_join_two)
qed

text \<open>Rules that evaluate the path functions on given strings.\<close>

lemma segments_eval:
  "segments (c # cs) =
     (if c = CHR ''/'' then [] # segments cs
      else (case segments cs of [] \<Rightarrow> [[c]] | h # t \<Rightarrow> (c # h) # t))"
  using segments_not_Nil [of cs] by (cases "segments cs") auto

lemma normalizeStep_dotdot:
  "normalizeStep b [] ''..'' = (if b then [''..''] else [])"
  "normalizeStep b [s] ''..'' = (if s \<noteq> ''..'' then [] else if b then [s, ''..''] else [s])"
  "normalizeStep b [r, s] ''..''
     = (if s \<noteq> ''..'' then [r] else if b then [r, s, ''..''] else [r, s])"
  "normalizeStep b [q, r, s] ''..''
     = (if s \<noteq> ''..'' then [q, r] else if b then [q, r, s, ''..''] else [q, r, s])"
  by (simp_all add: normalizeStep_def)

lemma normalizeStep_push:
  "s \<noteq> [] \<Longrightarrow> s \<noteq> ''.'' \<Longrightarrow> s \<noteq> ''..'' \<Longrightarrow> normalizeStep b res s = res @ [s]"
  by (simp add: normalizeStep_def)

lemmas path_eval = path_join_def normalize_def normalizeString_def normalizeSegments_def
  isAbsolute_def trailingSeparator_def resolve_def dirname_def normalizeStep_dotdot
  normalizeStep_push



section \<open>Facts about the file system\<close>



text \<open>What a recursive \<open>mkdir\<close> does to the tree.\<close>

lemma mkdirp_step:
  assumes "mkdirp d f cur (s # ss) = Inr d'"
  obtains (there) f1 k where "walk d f cur [s] = Inr (f1, k)" "k = [] \<or> d k = Some Dir"
      "mkdirp d f1 k ss = Inr d'"
  | (made) f1 where "walk d f cur [s] = Inr (f1, cur @ [s])" "d (cur @ [s]) = None"
      "mkdirp (d(cur @ [s] \<mapsto> Dir)) f1 (cur @ [s]) ss = Inr d'"
proof (cases "walk d f cur [s]")
  case (Inl e)
  with assms show ?thesis by (simp del: walk.simps)
next
  case (Inr r)
  obtain f1 k where r: "r = (f1, k)" by (cases r)
  show ?thesis
  proof (cases "k = [] \<or> d k = Some Dir")
    case True
    with assms Inr r have "mkdirp d f1 k ss = Inr d'"
      by (auto simp del: walk.simps split: if_splits)
    with Inr r True there show ?thesis by blast
  next
    case False
    with assms Inr r have "d k = None" "k = cur @ [s]" "mkdirp (d(k \<mapsto> Dir)) f1 k ss = Inr d'"
      by (auto simp del: walk.simps split: option.splits node.splits if_splits)
    with Inr r made show ?thesis by blast
  qed
qed






lemma linkfree_iff: "linkfree d k \<longleftrightarrow> (\<forall>q t. prefix q k \<longrightarrow> d q \<noteq> Some (Link t))"
  by (auto simp add: linkfree_def list_all_iff split: option.splits node.splits)

lemma linkfree_prefix: "linkfree d k \<Longrightarrow> prefix k' k \<Longrightarrow> linkfree d k'"
  unfolding linkfree_iff by (meson prefix_order.trans)

lemma linkfree_changes:
  "linkfree d k \<Longrightarrow> (\<And>q t. d' q = Some (Link t) \<Longrightarrow> d q = Some (Link t)) \<Longrightarrow> linkfree d' k"
  unfolding linkfree_iff by blast

lemma walk_linkfree:
  assumes "walk d f cur ss = Inr (f', k)" "linkfree d (cur @ ss)" "\<forall>s \<in> set ss. plain s"
  shows "f' = f \<and> k = cur @ ss"
  using assms
proof (induction ss arbitrary: cur)
  case Nil
  then show ?case by simp
next
  case (Cons s ss)
  have s: "s \<noteq> ''..''" using Cons.prems(3) by (auto simp add: plain_def)
  have nl: "d (cur @ [s]) \<noteq> Some (Link t)" for t
    using Cons.prems(2) unfolding linkfree_iff by (simp add: prefix_def)
  show ?case
  proof (cases "d (cur @ [s])")
    case None
    with s Cons.prems(1) show ?thesis by (auto split: if_splits)
  next
    case (Some n)
    show ?thesis
    proof (cases n)
      case (File c)
      with s Some Cons.prems(1) show ?thesis by (auto split: if_splits)
    next
      case Dir
      with s Some Cons.prems(1) have "walk d f (cur @ [s]) ss = Inr (f', k)" by simp
      from Cons.IH [OF this] Cons.prems(2,3) show ?thesis by simp
    next
      case (Link t)
      with Some nl show ?thesis by simp
    qed
  qed
qed

lemma mkdirp_linkfree:
  assumes "mkdirp d f cur ss = Inr d'" "linkfree d (cur @ ss)" "\<forall>s \<in> set ss. plain s"
      and "d' q \<noteq> d q"
  shows "strict_prefix cur q \<and> prefix q (cur @ ss)"
  using assms
proof (induction ss arbitrary: d f cur)
  case Nil
  then show ?case by simp
next
  case (Cons s ss)
  let ?k = "cur @ [s]"
  have lf: "linkfree d ?k"
    using linkfree_prefix [OF Cons.prems(2), of ?k] by (simp add: prefix_def)
  have pl: "\<forall>s \<in> set ss. plain s" "\<forall>x \<in> set [s]. plain x" using Cons.prems(3) by simp_all
  have up: "strict_prefix cur q \<and> prefix q (cur @ s # ss)"
    if "strict_prefix ?k q \<and> prefix q (?k @ ss)"
    using that by (auto simp add: strict_prefix_def prefix_def)
  from Cons.prems(1) show ?case
  proof (cases rule: mkdirp_step)
    case (there f1 k)
    have k: "f1 = f \<and> k = ?k" by (rule walk_linkfree [OF there(1) lf pl(2)])
    have "linkfree d (k @ ss)" using Cons.prems(2) k by simp
    from Cons.IH [OF there(3) this pl(1) Cons.prems(4)] up k show ?thesis by simp
  next
    case (made f1)
    show ?thesis
    proof (cases "q = ?k")
      case True
      then show ?thesis by (simp add: strict_prefix_def prefix_def)
    next
      case ne: False
      then have c: "d' q \<noteq> (d(?k \<mapsto> Dir)) q" using Cons.prems(4) by simp
      have "linkfree (d(?k \<mapsto> Dir)) (?k @ ss)"
        by (rule linkfree_changes [of d]) (use Cons.prems(2) in \<open>auto split: if_splits\<close>)
      from Cons.IH [OF made(3) this pl(1) c] up show ?thesis by simp
    qed
  qed
qed

text \<open>The calls of \<open>fs\<close>.\<close>

lemma locate_cases:
  assumes "locate d p = Inr k"
  obtains fuel where "refusal p = None" "walk d 40 [] (resolve p) = Inr (fuel, k)"
  using assms
  by (auto simp add: locate_def split: option.splits sum.splits)

lemma locate_linkfree: "locate d p = Inr k \<Longrightarrow> linkfree d (resolve p) \<Longrightarrow> k = resolve p"
  by (erule locate_cases) (use walk_linkfree [of d 40 "[]" "resolve p"] resolve_plain in auto)



lemma mkdirSync_linkfree:
  "mkdirSync d p = Inr d' \<Longrightarrow> linkfree d (resolve p) \<Longrightarrow> d' q \<noteq> d q \<Longrightarrow>
     q \<noteq> [] \<and> prefix q (resolve p)"
  using mkdirp_linkfree [of d 40 "[]" "resolve p" d' q] resolve_plain [of p]
  by (auto simp add: mkdirSync_def strict_prefix_def split: option.splits)


lemma writeFileSync_result:
  assumes "writeFileSync d p ct = Inr d'"
  shows "\<exists>k. locate d p = Inr k \<and> k \<noteq> [] \<and> d' = d(k \<mapsto> File ct) \<and> d k \<noteq> Some Dir
           \<and> (\<forall>t. d k \<noteq> Some (Link t))"
  using assms
  by (auto simp add: writeFileSync_def split: sum.splits if_splits option.splits node.splits)


lemma writeFileSync_linkfree:
  "writeFileSync d p ct = Inr d' \<Longrightarrow> linkfree d (resolve p) \<Longrightarrow> d' = d(resolve p \<mapsto> File ct)"
  by (drule writeFileSync_result) (auto dest: locate_linkfree)

lemma readFileSync_result:
  "readFileSync d p = Inr ct \<Longrightarrow> \<exists>k. locate d p = Inr k \<and> d k = Some (File ct)"
  by (auto simp add: readFileSync_def split: sum.splits if_splits option.splits node.splits)

lemma readFileSync_linkfree:
  "readFileSync d p = Inr ct \<Longrightarrow> linkfree d (resolve p) \<Longrightarrow> d (resolve p) = Some (File ct)"
  by (drule readFileSync_result) (auto dest: locate_linkfree)




section \<open>The branches of the handlers\<close>

lemma set_add_set [simp]: "set (set_add xs x) = insert x (set xs)"
  by (auto simp: set_add_def)

lemma set_add_distinct [simp]: "distinct (set_add xs x) = distinct xs"
  by (auto simp: set_add_def)

lemma set_delete_set [simp]: "set (set_delete xs x) = set xs - {x}"
  by (auto simp: set_delete_def)

lemma set_delete_distinct [simp]: "distinct xs \<Longrightarrow> distinct (set_delete xs x)"
  by (simp add: set_delete_def)

lemma getOrCreate_cases:
  assumes "getOrCreate st p = Inr (a, st1)"
  obtains (seen) "containers st p = Some a" "st1 = st"
  | (created) d where "containers st p = None" "a = next_addr st"
      "mkdirSync (disk st) (path_join [''/tmp'', p]) = Inr d"
      "st1 = st\<lparr>disk := d, next_addr := Suc (next_addr st),
                 heap := (heap st)(next_addr st :=
                   \<lparr>container_id = p, dir = path_join [''/tmp'', p], clients = [],
                    files = Map.empty, processes = {}\<rparr>),
                 containers := (containers st)(p \<mapsto> next_addr st)\<rparr>"
proof (cases "containers st p")
  case (Some b)
  with assms have "b = a" "st1 = st" by (simp_all add: getOrCreate_def)
  with Some seen show ?thesis by blast
next
  case None
  show ?thesis
  proof (cases "mkdirSync (disk st) (path_join [''/tmp'', p])")
    case (Inl e)
    with None assms show ?thesis by (simp add: getOrCreate_def createContainer_def)
  next
    case (Inr d)
    with None assms have "a = next_addr st"
      "st1 = st\<lparr>disk := d, next_addr := Suc (next_addr st),
                 heap := (heap st)(next_addr st :=
                   \<lparr>container_id = p, dir = path_join [''/tmp'', p], clients = [],
                    files = Map.empty, processes = {}\<rparr>),
                 containers := (containers st)(p \<mapsto> next_addr st)\<rparr>"
      by (auto simp add: getOrCreate_def createContainer_def Let_def)
    with None Inr created [of d] show ?thesis by blast
  qed
qed

lemma getOrCreate_seen:
  "containers st previewId = Some a \<Longrightarrow> getOrCreate st previewId = Inr (a, st)"
  by (simp add: getOrCreate_def)

lemma getOrCreate_registers:
  assumes "getOrCreate st previewId = Inr (a, st')"
  shows "containers st' previewId = Some a"
proof (cases "containers st previewId")
  case (Some b)
  with assms show ?thesis by (simp add: getOrCreate_def)
next
  case None
  show ?thesis
  proof (cases "createContainer st previewId")
    case (Inl e)
    with None assms show ?thesis by (simp add: getOrCreate_def)
  next
    case (Inr r)
    obtain b st1 where r: "r = (b, st1)" by (cases r)
    with None Inr assms show ?thesis by (auto simp: getOrCreate_def)
  qed
qed

lemma getOrCreate_frame:
  assumes "getOrCreate st p = Inr (a, st1)"
  shows "connections st1 = connections st" "children st1 = children st"
    "next_ws st1 = next_ws st" "next_uuid st1 = next_uuid st"
    "readyState st1 = readyState st" "timers st1 = timers st" "now st1 = now st"
    "sent st1 = sent st" "containers st1 p = Some a" "spawn_fault st1 = spawn_fault st"
  using assms by (cases rule: getOrCreate_cases; simp)+

lemma connection_cases:
  assumes "connection st q = Inr (w, st')"
  obtains (closed) "q = None \<or> q = Some []" "w = next_ws st"
      "st' = st\<lparr>next_ws := Suc (next_ws st),
                 readyState := (readyState st)(next_ws st := CLOSING)\<rparr>"
  | (joined) p a st1 where "q = Some p" "p \<noteq> []" "w = next_ws st"
      "getOrCreate (st\<lparr>next_ws := Suc (next_ws st),
                       readyState := (readyState st)(next_ws st := OPEN)\<rparr>) p = Inr (a, st1)"
      "st' = update_container
               (st1\<lparr>connections := (connections st1)(next_ws st \<mapsto>
                   \<lparr>conn_container = a, conn_previewId = p\<rparr>)\<rparr>)
               a (\<lambda>c. c\<lparr>clients := set_add (clients c) (next_ws st)\<rparr>)"
proof (cases "q = None \<or> q = Some []")
  case True
  with assms have "w = next_ws st"
      "st' = st\<lparr>next_ws := Suc (next_ws st),
                 readyState := (readyState st)(next_ws st := CLOSING)\<rparr>"
    by (auto simp add: connection_def Let_def)
  with True closed show ?thesis by blast
next
  case False
  then obtain p where q: "q = Some p" "p \<noteq> []" by (cases q) auto
  let ?st0 = "st\<lparr>next_ws := Suc (next_ws st), readyState := (readyState st)(next_ws st := OPEN)\<rparr>"
  show ?thesis
  proof (cases "getOrCreate ?st0 p")
    case (Inl e)
    with q assms show ?thesis by (simp add: connection_def Let_def)
  next
    case (Inr r)
    obtain a st1 where r: "r = (a, st1)" by (cases r)
    from assms q Inr r have "w = next_ws st"
        "st' = update_container
               (st1\<lparr>connections := (connections st1)(next_ws st \<mapsto>
                   \<lparr>conn_container = a, conn_previewId = p\<rparr>)\<rparr>)
               a (\<lambda>c. c\<lparr>clients := set_add (clients c) (next_ws st)\<rparr>)"
      by (auto simp add: connection_def Let_def)
    with q Inr r joined show ?thesis by blast
  qed
qed

lemma files_write_cases:
  assumes "files_write st pid p c = (r, st')"
  obtains (missing) "p = None \<or> p = Some [] \<or> c = None" "st' = st"
      "r = Response 400 (JsonError ''Missing required parameters'')"
  | (no_session) path content e where "p = Some path" "path \<noteq> []" "c = Some content"
      "getOrCreate st pid = Inl e" "st' = st" "r = Response 500 (Html ''Internal Server Error'')"
  | (no_dir) path content a st1 e where "p = Some path" "path \<noteq> []" "c = Some content"
      "getOrCreate st pid = Inr (a, st1)"
      "mkdirSync (disk st1) (dirname (path_join [dir (heap st1 a), path])) = Inl e"
      "st' = st1" "r = Response 500 (JsonErrorMessage e)"
  | (no_file) path content a st1 d1 e where "p = Some path" "path \<noteq> []" "c = Some content"
      "getOrCreate st pid = Inr (a, st1)"
      "mkdirSync (disk st1) (dirname (path_join [dir (heap st1 a), path])) = Inr d1"
      "writeFileSync d1 (path_join [dir (heap st1 a), path]) content = Inl e"
      "st' = st1\<lparr>disk := d1\<rparr>" "r = Response 500 (JsonErrorMessage e)"
  | (written) path content a st1 d1 d2 where "p = Some path" "path \<noteq> []" "c = Some content"
      "getOrCreate st pid = Inr (a, st1)"
      "mkdirSync (disk st1) (dirname (path_join [dir (heap st1 a), path])) = Inr d1"
      "writeFileSync d1 (path_join [dir (heap st1 a), path]) content = Inr d2"
      "st' = broadcastToContainer
               (update_container (st1\<lparr>disk := d2\<rparr>) a
                  (\<lambda>c. c\<lparr>files := (files c)(path \<mapsto> content)\<rparr>))
               pid (FileChange pid path)"
      "r = Response 200 JsonSuccess"
proof (cases "p = None \<or> p = Some [] \<or> c = None")
  case True
  with assms have "st' = st" "r = Response 400 (JsonError ''Missing required parameters'')"
    by (auto simp add: files_write_def split: option.splits)
  with True missing show ?thesis by blast
next
  case False
  then obtain path content where pc: "p = Some path" "path \<noteq> []" "c = Some content"
    by (cases p; cases c) auto
  show ?thesis
  proof (cases "getOrCreate st pid")
    case (Inl e)
    with pc assms have "st' = st" "r = Response 500 (Html ''Internal Server Error'')"
      by (auto simp add: files_write_def)
    with pc Inl no_session show ?thesis by blast
  next
    case (Inr x)
    obtain a st1 where x: "x = (a, st1)" by (cases x)
    let ?full = "path_join [dir (heap st1 a), path]"
    show ?thesis
    proof (cases "mkdirSync (disk st1) (dirname ?full)")
      case (Inl e)
      with pc Inr x assms have "st' = st1" "r = Response 500 (JsonErrorMessage e)"
        by (auto simp add: files_write_def Let_def)
      with pc Inr x Inl no_dir show ?thesis by blast
    next
      case d1: (Inr d1)
      show ?thesis
      proof (cases "writeFileSync d1 ?full content")
        case (Inl e)
        with pc Inr x d1 assms have "st' = st1\<lparr>disk := d1\<rparr>" "r = Response 500 (JsonErrorMessage e)"
          by (auto simp add: files_write_def Let_def)
        with pc Inr x d1 Inl no_file show ?thesis by blast
      next
        case d2: (Inr d2)
        with pc Inr x d1 assms have "st' = broadcastToContainer
               (update_container (st1\<lparr>disk := d2\<rparr>) a
                  (\<lambda>c. c\<lparr>files := (files c)(path \<mapsto> content)\<rparr>))
               pid (FileChange pid path)" "r = Response 200 JsonSuccess"
          by (auto simp add: files_write_def Let_def)
        with pc Inr x d1 d2 written show ?thesis by blast
      qed
    qed
  qed
qed

lemma exec_frame [simp]:
  "exec (st\<lparr>disk := d\<rparr>) = exec st"
  "exec (st\<lparr>next_uuid := n\<rparr>) = exec st"
  by (simp_all add: exec_def fun_eq_iff)

lemma execute_cases:
  assumes "execute st pid command args cwd = (r, st')"
  obtains (missing) "command = None \<or> command = Some []"
      "r = Response 400 (JsonError ''Missing command parameter'')" "st' = st"
  | (no_session) cmd e where "command = Some cmd" "cmd \<noteq> []" "getOrCreate st pid = Inl e"
      "r = Response 500 (Html ''Internal Server Error'')" "st' = st"
  | (no_dir) cmd a st1 e where "command = Some cmd" "cmd \<noteq> []"
      "getOrCreate st pid = Inr (a, st1)"
      "mkdirSync (disk st1) (workingDir (heap st1 a) cwd) = Inl e"
      "r = Response 500 (JsonErrorMessage e)" "st' = st1\<lparr>next_uuid := Suc (next_uuid st1)\<rparr>"
  | (thrown) cmd a st1 d e where "command = Some cmd" "cmd \<noteq> []"
      "getOrCreate st pid = Inr (a, st1)"
      "mkdirSync (disk st1) (workingDir (heap st1 a) cwd) = Inr d"
      "exec st1 (commandLine cmd args) (workingDir (heap st1 a) cwd) = Some e"
      "r = Response 500 (JsonErrorMessage e)"
      "st' = st1\<lparr>next_uuid := Suc (next_uuid st1), disk := d\<rparr>"
  | (started) cmd a st1 d ch where "command = Some cmd" "cmd \<noteq> []"
      "getOrCreate st pid = Inr (a, st1)"
      "mkdirSync (disk st1) (workingDir (heap st1 a) cwd) = Inr d"
      "exec st1 (commandLine cmd args) (workingDir (heap st1 a) cwd) = None"
      "r = Response 200 (JsonProcessId (next_uuid st1))"
      "child_container ch = a" "child_previewId ch = pid"
      "st' = update_container
               (st1\<lparr>next_uuid := Suc (next_uuid st1), disk := d,
                    children := (children st1)(next_uuid st1 \<mapsto> ch)\<rparr>)
               a (\<lambda>c. c\<lparr>processes := insert (next_uuid st1) (processes c)\<rparr>)"
proof (cases "command = None \<or> command = Some []")
  case True
  with assms have "r = Response 400 (JsonError ''Missing command parameter'')" "st' = st"
    by (auto simp add: execute_def)
  with True missing show ?thesis by blast
next
  case False
  then obtain cmd where c: "command = Some cmd" "cmd \<noteq> []" by (cases command) auto
  show ?thesis
  proof (cases "getOrCreate st pid")
    case (Inl e)
    with c assms have "r = Response 500 (Html ''Internal Server Error'')" "st' = st"
      by (auto simp add: execute_def)
    with c Inl no_session show ?thesis by blast
  next
    case (Inr x)
    obtain a st1 where x: "x = (a, st1)" by (cases x)
    show ?thesis
    proof (cases "mkdirSync (disk st1) (workingDir (heap st1 a) cwd)")
      case (Inl e)
      with c Inr x assms have "r = Response 500 (JsonErrorMessage e)"
          "st' = st1\<lparr>next_uuid := Suc (next_uuid st1)\<rparr>"
        by (auto simp add: execute_def Let_def workingDir_def)
      with c Inr x Inl no_dir show ?thesis by blast
    next
      case d: (Inr d)
      show ?thesis
      proof (cases "exec st1 (commandLine cmd args) (workingDir (heap st1 a) cwd)")
        case (Some e)
        with c Inr x d assms have "r = Response 500 (JsonErrorMessage e)"
            "st' = st1\<lparr>next_uuid := Suc (next_uuid st1), disk := d\<rparr>"
          by (auto simp add: execute_def Let_def workingDir_def commandLine_def)
        with c Inr x d Some thrown show ?thesis by blast
      next
        case None
        let ?ch = "\<lparr>child_container = a, child_previewId = pid,
                    child_command = commandLine cmd args,
                    child_cwd = workingDir (heap st1 a) cwd\<rparr>"
        from c Inr x d None assms have "r = Response 200 (JsonProcessId (next_uuid st1))"
            "st' = update_container
                 (st1\<lparr>next_uuid := Suc (next_uuid st1), disk := d,
                      children := (children st1)(next_uuid st1 \<mapsto> ?ch)\<rparr>)
                 a (\<lambda>c. c\<lparr>processes := insert (next_uuid st1) (processes c)\<rparr>)"
          by (auto simp add: execute_def Let_def workingDir_def commandLine_def)
        with c Inr x d None started [of cmd a st1 d ?ch] show ?thesis by simp
      qed
    qed
  qed
qed

section \<open>WebSocket connections without a preview identifier\<close>


section \<open>Removing through the facade\<close>

lemma dispatch_rm:
  "dispatch st (empty_request\<lparr>req_method := POST,
                  req_path := ''/api/files/rm/'' @ previewId,
                  body_path := p, body_recursive := r\<rparr>)
     = (Response 404 (Html ''Not Found''), st)"
proof -
  have "segments (''/api/files/rm/'' @ previewId)
          = [[], ''api'', ''files'', ''rm''] @ segments previewId"
    using segments_append_slash [of "''/api/files/rm''" previewId] by simp
  then show ?thesis
    by (simp add: dispatch_def Let_def empty_request_def)
qed

text \<open>
  Claim C5. server.js registers no route for \<open>/api/files/rm\<close>, so the request that the
  facade's \<open>rm\<close> sends is answered with status 404 whatever it names. The facade turns
  that into a thrown error, and the backend's state (registry, caches, mirrored
  directories) is the one before. In particular \<open>rm\<close> of a non-empty directory without
  the recursive flag fails with a not-found error and leaves the directory as it was.
\<close>

theorem rm_fails_and_changes_nothing:
  "rm st previewId path recursive = (Inl (''Failed to remove: '' @ path), st)
   \<and> status (fst (dispatch st (empty_request\<lparr>req_method := POST,
                  req_path := ''/api/files/rm/'' @ previewId,
                  body_path := Some path, body_recursive := recursive\<rparr>))) = 404"
  unfolding rm_def dispatch_rm by (simp add: ok_def)

section \<open>The invariant of reachable states\<close>

lemma inv_boot: "inv (init\<lparr>disk := d, spawn_fault := f\<rparr>)"
  by (simp add: inv_def inv_registry_def inv_members_def init_def)

lemma inv_sent [simp]: "inv (st\<lparr>sent := x\<rparr>) = inv st"
  by (simp add: inv_def inv_registry_def inv_members_def)

lemma inv_readyState [simp]: "inv (st\<lparr>readyState := x\<rparr>) = inv st"
  by (simp add: inv_def inv_registry_def inv_members_def)

lemma inv_timers [simp]: "inv (st\<lparr>timers := x\<rparr>) = inv st"
  by (simp add: inv_def inv_registry_def inv_members_def)

lemma inv_now [simp]: "inv (st\<lparr>now := x\<rparr>) = inv st"
  by (simp add: inv_def inv_registry_def inv_members_def)

lemma inv_disk [simp]: "inv (st\<lparr>disk := x\<rparr>) = inv st"
  by (simp add: inv_def inv_registry_def inv_members_def)

lemma inv_spawn_fault [simp]: "inv (st\<lparr>spawn_fault := x\<rparr>) = inv st"
  by (simp add: inv_def inv_registry_def inv_members_def)

lemma inv_broadcast [simp]: "inv (broadcastToContainer st p e) = inv st"
  by (simp add: broadcastToContainer_def split: option.split)

lemma inv_files:
  "inv (update_container st a (\<lambda>c. c\<lparr>files := f c\<rparr>)) = inv st"
  by (auto simp add: inv_def inv_registry_def inv_members_def)

lemma inv_getOrCreate:
  assumes "inv st" "getOrCreate st p = Inr (a, st1)"
  shows "inv st1"
  using assms(2)
proof (cases rule: getOrCreate_cases)
  case seen
  with assms show ?thesis by simp
next
  case (created d)
  with assms(1) show ?thesis
    by (auto simp add: inv_def inv_registry_def inv_members_def less_Suc_eq)
qed

lemma inv_connection:
  assumes "inv st" "connection st q = Inr (w, st')"
  shows "inv st'"
proof -
  let ?st0 = "st\<lparr>next_ws := Suc (next_ws st), readyState := (readyState st)(next_ws st := OPEN)\<rparr>"
  have inv0: "inv ?st0"
    using assms(1) by (auto simp add: inv_def inv_registry_def inv_members_def less_Suc_eq)
  show ?thesis
  proof (cases "q = None \<or> q = Some []")
    case True
    with assms(2) have "st' = ?st0\<lparr>readyState := (readyState ?st0)(next_ws st := CLOSING)\<rparr>"
      by (auto simp add: connection_def Let_def)
    with inv0 show ?thesis by simp
  next
    case False
    then obtain p where q: "q = Some p" "p \<noteq> []" by (cases q) auto
    show ?thesis
    proof (cases "getOrCreate ?st0 p")
      case (Inl e)
      with q assms(2) show ?thesis by (simp add: connection_def Let_def)
    next
      case (Inr r)
      obtain a st1 where r: "r = (a, st1)" by (cases r)
      have inv1: "inv st1" using inv_getOrCreate [OF inv0] Inr r by simp
      have fr: "connections st1 = connections st" "next_ws st1 = Suc (next_ws st)"
        using getOrCreate_frame [of ?st0 p a st1] Inr r by simp_all
      have old: "\<forall>w' cl. connections st w' = Some cl \<longrightarrow> w' < next_ws st"
        using assms(1) by (simp add: inv_def inv_registry_def)
      have st': "st' = update_container
                   (st1\<lparr>connections := (connections st1)(next_ws st \<mapsto>
                       \<lparr>conn_container = a, conn_previewId = p\<rparr>)\<rparr>)
                   a (\<lambda>c. c\<lparr>clients := set_add (clients c) (next_ws st)\<rparr>)"
        using assms(2) q Inr r by (auto simp add: connection_def Let_def)
      show ?thesis
        unfolding st' using inv1 fr old
        by (auto simp add: inv_def inv_registry_def inv_members_def less_Suc_eq;
            metis less_irrefl)
    qed
  qed
qed

lemma inv_ws_close: "inv st \<Longrightarrow> inv (ws_close st w)"
proof (cases "connections st w")
  case None
  assume "inv st" with None show ?thesis by (simp add: ws_close_def)
next
  case (Some cl)
  assume i: "inv st"
  let ?st1 = "update_container
                (st\<lparr>readyState := (readyState st)(w := CLOSED),
                    connections := (connections st)(w := None)\<rparr>)
                (conn_container cl) (\<lambda>c. c\<lparr>clients := set_delete (clients c) w\<rparr>)"
  have "inv ?st1"
    using i Some by (auto simp add: inv_def inv_registry_def inv_members_def;
        metis option.inject)
  then show ?thesis using Some by (simp add: ws_close_def Let_def)
qed

lemma inv_cleanup: "inv st \<Longrightarrow> inv (cleanup st p)"
  by (auto simp add: cleanup_def inv_def inv_registry_def inv_members_def split: option.split)

lemma inv_foldl_cleanup: "inv st \<Longrightarrow> inv (foldl cleanup st ps)"
  by (induction ps arbitrary: st) (simp_all add: inv_cleanup)

lemma inv_advance: "inv st \<Longrightarrow> inv (advance st t)"
  by (simp add: advance_def inv_foldl_cleanup)

lemma inv_ws_message: "inv st \<Longrightarrow> inv (ws_message st w ty)"
  by (simp add: ws_message_def Let_def split: option.split)

lemma inv_process_data: "inv st \<Longrightarrow> inv (process_data st p strm chunk)"
  by (simp add: process_data_def split: option.split)

lemma inv_files_write: "inv st \<Longrightarrow> inv (snd (files_write st p path content))"
proof -
  assume i: "inv st"
  have "\<And>a st1. getOrCreate st p = Inr (a, st1) \<Longrightarrow> inv st1"
    using inv_getOrCreate [OF i] by blast
  then show ?thesis
    using i
    by (simp add: files_write_def Let_def inv_files
          split: option.split sum.split prod.split)
qed

lemma inv_files_read: "inv st \<Longrightarrow> inv (snd (files_read st p path))"
  by (simp add: files_read_def Let_def inv_files split: option.split sum.split)

lemma inv_execute: "inv st \<Longrightarrow> inv (snd (execute st p command args cwd))"
proof -
  assume i: "inv st"
  obtain r st' where e: "execute st p command args cwd = (r, st')"
    by (cases "execute st p command args cwd")
  have fresh: "inv (st1\<lparr>next_uuid := Suc (next_uuid st1)\<rparr>)" if "inv st1" for st1
    using that by (auto simp add: inv_def inv_registry_def inv_members_def less_Suc_eq)
  from e have "inv st'"
  proof (cases rule: execute_cases)
    case missing
    with i show ?thesis by simp
  next
    case (no_session cmd e)
    with i show ?thesis by simp
  next
    case (no_dir cmd a st1 e)
    with fresh [OF inv_getOrCreate [OF i no_dir(3)]] show ?thesis by simp
  next
    case (thrown cmd a st1 d e)
    with fresh [OF inv_getOrCreate [OF i thrown(3)]] show ?thesis by simp
  next
    case (started cmd a st1 d ch)
    have inv1: "inv st1" using inv_getOrCreate [OF i started(3)] .
    have "inv (update_container
                 (st1\<lparr>next_uuid := Suc (next_uuid st1), disk := d,
                      children := (children st1)(next_uuid st1 \<mapsto> ch)\<rparr>)
                 a (\<lambda>c. c\<lparr>processes := insert (next_uuid st1) (processes c)\<rparr>))"
      using inv1 started(7)
      by (auto simp add: inv_def inv_registry_def inv_members_def less_Suc_eq;
          metis less_irrefl)
    with started show ?thesis by simp
  qed
  with e show ?thesis by simp
qed

lemma inv_exec_callback: "inv st \<Longrightarrow> inv (exec_callback st p error out err)"
proof (cases "children st p")
  case None
  assume "inv st" with None show ?thesis by (simp add: exec_callback_def)
next
  case (Some ch)
  assume i: "inv st"
  have "inv (update_container (st\<lparr>children := (children st)(p := None)\<rparr>)
               (child_container ch) (\<lambda>c. c\<lparr>processes := processes c - {p}\<rparr>))"
    using i Some by (auto simp add: inv_def inv_registry_def inv_members_def;
        metis option.inject)
  then show ?thesis using Some by (simp add: exec_callback_def Let_def)
qed

lemma inv_preview: "inv st \<Longrightarrow> inv (snd (preview st p))"
  by (simp add: preview_def Let_def split: option.split)

lemma inv_preview_file: "inv st \<Longrightarrow> inv (snd (preview_file st p f))"
  by (simp add: preview_file_def Let_def split: option.split)

lemma inv_dispatch: "inv st \<Longrightarrow> inv (snd (dispatch st req))"
  by (simp add: dispatch_def Let_def inv_files_write inv_files_read inv_execute
        inv_preview inv_preview_file)

lemma step_inv: "step st origin st' \<Longrightarrow> inv st \<Longrightarrow> inv st'"
proof (induction rule: step.induct)
  case (on_connection st q w st')
  then show ?case using inv_connection by blast
qed (simp_all add: inv_ws_message inv_ws_close inv_advance inv_files_write inv_files_read
       inv_execute inv_exec_callback inv_process_data)

lemma reachable_inv: "reachable st \<Longrightarrow> inv st"
proof (induction rule: reachable.induct)
  case (boot d f)
  show ?case by (rule inv_boot)
next
  case (after st origin st')
  then show ?case using step_inv by blast
qed

lemma dispatch_step:
  "snd (dispatch st req) = st \<or> (\<exists>origin. step st origin (snd (dispatch st req)))"
  by (auto simp add: dispatch_def Let_def preview_def preview_file_def
        intro: step.on_write step.on_read step.on_execute split: option.split)

section \<open>Broadcasts stay inside their session\<close>

lemma deliveries_same: "sent st' = sent st \<Longrightarrow> deliveries st st' = []"
  by (simp add: deliveries_def)

lemma deliveries_broadcast:
  "sent st1 = sent st \<Longrightarrow>
     deliveries st (broadcastToContainer st1 p ev)
       = map (\<lambda>c. (c, ev)) (filter (\<lambda>c. readyState st1 c = OPEN) (registered st1 p))"
  by (simp add: deliveries_def broadcastToContainer_def registered_def split: option.split)

lemma registered_broadcast [simp]:
  "registered (broadcastToContainer st p ev) = registered st"
  by (rule ext) (simp add: registered_def split: option.split)

lemma inv_container:
  "inv st \<Longrightarrow> containers st p = Some a \<Longrightarrow>
     container_id (heap st a) = p \<and> dir (heap st a) = path_join [''/tmp'', p]"
  unfolding inv_def inv_registry_def by blast

lemma inv_client:
  "inv st \<Longrightarrow> w \<in> set (clients (heap st a)) \<Longrightarrow>
     \<exists>cl. connections st w = Some cl \<and> conn_container cl = a"
  unfolding inv_def inv_members_def by blast

lemma inv_one_session:
  assumes "inv st" "c \<in> set (registered st p)"
  shows "{p'. c \<in> set (registered st p')} = {p}"
proof -
  have "p' = p" if "c \<in> set (registered st p')" for p'
  proof -
    from that obtain a' where a': "containers st p' = Some a'" "c \<in> set (clients (heap st a'))"
      by (cases "containers st p'") (auto simp add: registered_def)
    from assms(2) obtain a where a: "containers st p = Some a" "c \<in> set (clients (heap st a))"
      by (cases "containers st p") (auto simp add: registered_def)
    from inv_client [OF assms(1) a(2)] inv_client [OF assms(1) a'(2)] have "a = a'"
      by auto
    moreover have "container_id (heap st a) = p"
      using inv_container [OF assms(1) a(1)] by (rule conjunct1)
    moreover have "container_id (heap st a') = p'"
      using inv_container [OF assms(1) a'(1)] by (rule conjunct1)
    ultimately show ?thesis by metis
  qed
  with assms(2) show ?thesis by blast
qed

lemma inv_clients_distinct: "inv st \<Longrightarrow> distinct (clients (heap st a))"
  unfolding inv_def inv_members_def by blast

lemma inv_registered_distinct: "inv st \<Longrightarrow> distinct (registered st p)"
  by (simp add: registered_def inv_clients_distinct split: option.split)

lemma count_in_distinct:
  "distinct xs \<Longrightarrow> c \<in> set xs \<Longrightarrow> P c \<Longrightarrow>
     length (filter (\<lambda>d. fst d = c) (map (\<lambda>c. (c, ev)) (filter P xs))) = Suc 0"
  by (induction xs) (auto simp add: filter_empty_conv)

lemma broadcast_confined:
  assumes "inv st1" "sent st1 = sent st"
      and "(c, e) \<in> set (deliveries st (broadcastToContainer st1 p ev))"
      and "event_previewId ev = p"
  shows "event_previewId e = p
       \<and> readyState (broadcastToContainer st1 p ev) c = OPEN
       \<and> c \<in> set (registered (broadcastToContainer st1 p ev) (event_previewId e))
       \<and> {p'. c \<in> set (registered (broadcastToContainer st1 p ev) p')} = {event_previewId e}
       \<and> length (filter (\<lambda>d. fst d = c) (deliveries st (broadcastToContainer st1 p ev))) = 1"
proof -
  from assms(3) have m: "e = ev" "c \<in> set (registered st1 p)" "readyState st1 c = OPEN"
    by (auto simp add: deliveries_broadcast [OF assms(2)])
  have one: "{p'. c \<in> set (registered st1 p')} = {p}"
    using inv_one_session [OF assms(1) m(2)] .
  have cnt: "length (filter (\<lambda>d. fst d = c) (deliveries st (broadcastToContainer st1 p ev))) = 1"
    unfolding deliveries_broadcast [OF assms(2)]
    using count_in_distinct [OF inv_registered_distinct [OF assms(1)] m(2), of "\<lambda>c. readyState st1 c = OPEN"] m(3)
    by simp
  from m one cnt assms(4) show ?thesis by simp
qed

lemma connection_sent: "connection st q = Inr (w, st') \<Longrightarrow> sent st' = sent st"
proof (cases "q = None \<or> q = Some []")
  case True
  assume "connection st q = Inr (w, st')"
  with True show ?thesis by (auto simp add: connection_def Let_def)
next
  case False
  assume c: "connection st q = Inr (w, st')"
  from False obtain p where q: "q = Some p" "p \<noteq> []" by (cases q) auto
  let ?st0 = "st\<lparr>next_ws := Suc (next_ws st), readyState := (readyState st)(next_ws st := OPEN)\<rparr>"
  show ?thesis
  proof (cases "getOrCreate ?st0 p")
    case (Inl e)
    with q c show ?thesis by (simp add: connection_def Let_def)
  next
    case (Inr r)
    obtain a st1 where r: "r = (a, st1)" by (cases r)
    have "sent st1 = sent st" using getOrCreate_frame(8) [of ?st0 p a st1] Inr r by simp
    with q c Inr r show ?thesis by (auto simp add: connection_def Let_def)
  qed
qed

lemma ws_close_sent [simp]: "sent (ws_close st w) = sent st"
  by (simp add: ws_close_def Let_def split: option.split)

lemma cleanup_sent [simp]: "sent (cleanup st p) = sent st"
  by (simp add: cleanup_def split: option.split)

lemma foldl_cleanup_sent [simp]: "sent (foldl cleanup st ps) = sent st"
  by (induction ps arbitrary: st) simp_all

lemma advance_sent [simp]: "sent (advance st t) = sent st"
  by (simp add: advance_def)

lemma files_read_sent [simp]: "sent (snd (files_read st p path)) = sent st"
  by (simp add: files_read_def Let_def split: option.split sum.split)

lemma execute_sent [simp]: "sent (snd (execute st p command args cwd)) = sent st"
proof -
  obtain r st' where e: "execute st p command args cwd = (r, st')"
    by (cases "execute st p command args cwd")
  from e have "sent st' = sent st"
    by (cases rule: execute_cases) (use getOrCreate_frame(8) in auto)
  with e show ?thesis by simp
qed

lemma broadcasts_direct:
  "inv st1 \<Longrightarrow> sent st1 = sent st \<Longrightarrow> event_previewId ev = p \<Longrightarrow>
     broadcasts st (Some p) (broadcastToContainer st1 p ev)"
  unfolding broadcasts_def by blast

lemma ws_message_broadcasts:
  assumes "inv st" "connections st w = Some cl"
  shows "broadcasts st (Some (conn_previewId cl)) (ws_message st w ty)"
proof -
  have "ws_message st w ty = st
        \<or> ws_message st w ty = broadcastToContainer st (conn_previewId cl)
                                  (RefreshPreview (conn_previewId cl))
        \<or> ws_message st w ty = broadcastToContainer st (conn_previewId cl)
             (PreviewReady (conn_previewId cl) (''/preview/'' @ conn_previewId cl) (now st))"
    using assms(2) by (simp add: ws_message_def Let_def)
  then consider "ws_message st w ty = st"
    | ev where "event_previewId ev = conn_previewId cl"
        "ws_message st w ty = broadcastToContainer st (conn_previewId cl) ev"
    by (metis event_previewId.simps(1,2))
  then show ?thesis
  proof cases
    case 1
    then show ?thesis by (simp add: broadcasts_def)
  next
    case 2
    show ?thesis
      unfolding 2(2) using assms(1) 2(1) by (intro broadcasts_direct) simp_all
  qed
qed

lemma files_write_broadcasts:
  assumes "inv st"
  shows "broadcasts st (Some p) (snd (files_write st p path content))"
proof (cases "getOrCreate st p")
  case (Inl e)
  then show ?thesis
    by (simp add: files_write_def broadcasts_def split: option.split)
next
  case (Inr r)
  obtain a st1 where r: "r = (a, st1)" by (cases r)
  have s1: "sent st1 = sent st" using getOrCreate_frame(8) [of st p a st1] Inr r by simp
  have i1: "inv st1" using inv_getOrCreate [OF assms] Inr r by simp
  have b: "broadcasts st (Some p)
             (broadcastToContainer
                (update_container (st1\<lparr>disk := d\<rparr>) a (\<lambda>c. c\<lparr>files := (files c)(fp \<mapsto> ct)\<rparr>))
                p (FileChange p fp))" for d fp ct
    using i1 s1 by (intro broadcasts_direct) (simp_all add: inv_files)
  have n: "broadcasts st (Some p) st2" if "sent st2 = sent st" for st2
    using that by (simp add: broadcasts_def)
  show ?thesis
    using Inr r b n s1
    by (simp add: files_write_def Let_def split: option.split sum.split)
qed

lemma exec_callback_broadcasts:
  assumes "inv st" "children st p = Some ch"
  shows "broadcasts st (Some (child_previewId ch)) (exec_callback st p error out err)"
proof -
  let ?st1 = "update_container (st\<lparr>children := (children st)(p := None)\<rparr>)
               (child_container ch) (\<lambda>c. c\<lparr>processes := processes c - {p}\<rparr>)"
  have "inv (exec_callback st p error out err)" using inv_exec_callback [OF assms(1)] .
  then have "inv ?st1" using assms(2) by (simp add: exec_callback_def Let_def)
  then show ?thesis
    using assms(2)
    by (simp add: exec_callback_def Let_def broadcasts_direct)
qed

lemma process_data_broadcasts:
  assumes "inv st" "children st p = Some ch"
  shows "broadcasts st (Some (child_previewId ch)) (process_data st p strm chunk)"
  using assms by (simp add: process_data_def broadcasts_direct)

lemma step_broadcasts:
  "step st origin st' \<Longrightarrow> inv st \<Longrightarrow> broadcasts st origin st'"
proof (induction rule: step.induct)
  case (on_connection st q w st')
  then show ?case using connection_sent by (simp add: broadcasts_def)
qed (simp_all add: ws_message_broadcasts files_write_broadcasts exec_callback_broadcasts
       process_data_broadcasts, simp_all add: broadcasts_def)

text \<open>
  Claim C9. In every state the backend can reach, and for every step it takes from
  there, each message the step sends carries the identifier of the session the step
  worked for; its receiver is a client whose channel is open, registered under that
  identifier and under no other; and the receiver gets the message once. A registered
  client whose channel is not open gets nothing, and nothing is kept to be sent later.
\<close>

theorem broadcast_stays_in_session:
  assumes "reachable st" and "step st origin st'" and "(c, e) \<in> set (deliveries st st')"
  shows "origin = Some (event_previewId e)
       \<and> readyState st' c = OPEN
       \<and> c \<in> set (registered st' (event_previewId e))
       \<and> {p. c \<in> set (registered st' p)} = {event_previewId e}
       \<and> length (filter (\<lambda>d. fst d = c) (deliveries st st')) = 1"
proof -
  have "broadcasts st origin st'"
    using step_broadcasts [OF assms(2) reachable_inv [OF assms(1)]] .
  moreover have "sent st' \<noteq> sent st" using assms(3) by (auto simp add: deliveries_def)
  ultimately obtain st1 p ev where b: "inv st1" "sent st1 = sent st" "event_previewId ev = p"
      "origin = Some p" "st' = broadcastToContainer st1 p ev"
    unfolding broadcasts_def by blast
  have "(c, e) \<in> set (deliveries st (broadcastToContainer st1 p ev))"
    using assms(3) unfolding b(5) .
  from broadcast_confined [OF b(1) b(2) this b(3)] b(4)
  show ?thesis unfolding b(5) by blast
qed

lemma path_join_tmp_a: "path_join [''/tmp'', ''a''] = ''/tmp/a''"
  by (simp add: path_defs)

lemma path_join_tmp_b: "path_join [''/tmp'', ''b''] = ''/tmp/b''"
  by (simp add: path_defs)

lemma resolve_tmp_a: "resolve ''/tmp/a'' = [''tmp'', ''a'']"
  by (simp add: path_defs)

lemma resolve_tmp_b: "resolve ''/tmp/b'' = [''tmp'', ''b'']"
  by (simp add: path_defs)

lemma refusal_tmp_a: "refusal ''/tmp/a'' = None"
  by (simp add: refusal_def segments_eval del: segments.simps(2))

lemma refusal_tmp_b: "refusal ''/tmp/b'' = None"
  by (simp add: refusal_def segments_eval del: segments.simps(2))

lemma connection_init_a:
  "connection init (Some ''a'') =
     Inr (0, init\<lparr>next_ws := Suc 0,
                   readyState := (readyState init)(0 := OPEN),
                   disk := Map.empty([''tmp''] \<mapsto> Dir, [''tmp'', ''a''] \<mapsto> Dir),
                   next_addr := Suc 0,
                   heap := (heap init)(0 :=
                       \<lparr>container_id = ''a'', dir = ''/tmp/a'', clients = [0],
                        files = Map.empty, processes = {}\<rparr>),
                   containers := [''a'' \<mapsto> 0],
                   connections := [0 \<mapsto> \<lparr>conn_container = 0, conn_previewId = ''a''\<rparr>]\<rparr>)"
  by (simp add: connection_def getOrCreate_def createContainer_def path_join_tmp_a
      mkdirSync_def resolve_tmp_a refusal_tmp_a init_def update_container_def set_add_def)

lemma one_client_eq:
  "one_client = init\<lparr>next_ws := Suc 0,
                   readyState := (readyState init)(0 := OPEN),
                   disk := Map.empty([''tmp''] \<mapsto> Dir, [''tmp'', ''a''] \<mapsto> Dir),
                   next_addr := Suc 0,
                   heap := (heap init)(0 :=
                       \<lparr>container_id = ''a'', dir = ''/tmp/a'', clients = [0],
                        files = Map.empty, processes = {}\<rparr>),
                   containers := [''a'' \<mapsto> 0],
                   connections := [0 \<mapsto> \<lparr>conn_container = 0, conn_previewId = ''a''\<rparr>]\<rparr>"
  by (simp add: one_client_def connection_init_a)

lemma connection_one_client_b:
  "connection one_client (Some ''b'') =
     Inr (Suc 0, one_client\<lparr>next_ws := Suc (Suc 0),
                   readyState := (readyState one_client)(Suc 0 := OPEN),
                   disk := (disk one_client)([''tmp'', ''b''] \<mapsto> Dir),
                   next_addr := Suc (Suc 0),
                   heap := (heap one_client)(Suc 0 :=
                       \<lparr>container_id = ''b'', dir = ''/tmp/b'', clients = [Suc 0],
                        files = Map.empty, processes = {}\<rparr>),
                   containers := (containers one_client)(''b'' \<mapsto> Suc 0),
                   connections := (connections one_client)(Suc 0 \<mapsto>
                       \<lparr>conn_container = Suc 0, conn_previewId = ''b''\<rparr>)\<rparr>)"
  by (simp add: one_client_eq connection_def getOrCreate_def createContainer_def
      path_join_tmp_b mkdirSync_def resolve_tmp_b refusal_tmp_b init_def update_container_def
      set_add_def)

lemma connection_init_a_one_client: "connection init (Some ''a'') = Inr (0, one_client)"
  by (simp add: connection_init_a one_client_eq)

lemma two_sessions_eq:
  "two_sessions = one_client\<lparr>next_ws := Suc (Suc 0),
                   readyState := (readyState one_client)(Suc 0 := OPEN),
                   disk := (disk one_client)([''tmp'', ''b''] \<mapsto> Dir),
                   next_addr := Suc (Suc 0),
                   heap := (heap one_client)(Suc 0 :=
                       \<lparr>container_id = ''b'', dir = ''/tmp/b'', clients = [Suc 0],
                        files = Map.empty, processes = {}\<rparr>),
                   containers := (containers one_client)(''b'' \<mapsto> Suc 0),
                   connections := (connections one_client)(Suc 0 \<mapsto>
                       \<lparr>conn_container = Suc 0, conn_previewId = ''b''\<rparr>)\<rparr>"
  by (simp add: two_sessions_def connection_one_client_b)

lemma connection_one_client_b_two_sessions:
  "connection one_client (Some ''b'') = Inr (Suc 0, two_sessions)"
  by (simp add: connection_one_client_b two_sessions_eq)

lemma reachable_init: "reachable init"
  using reachable.boot [of Map.empty "\<lambda>_. None"] by (simp add: init_def)

lemma reachable_two_sessions: "reachable two_sessions"
  using reachable.after [OF reachable.after [OF reachable_init
          step.on_connection [OF connection_init_a_one_client]]
        step.on_connection [OF connection_one_client_b_two_sessions]] .

lemma two_sessions_fields:
  "connections two_sessions 0 = Some \<lparr>conn_container = 0, conn_previewId = ''a''\<rparr>"
  "containers two_sessions ''a'' = Some 0"
  "containers two_sessions ''b'' = Some (Suc 0)"
  "clients (heap two_sessions 0) = [0]"
  "clients (heap two_sessions (Suc 0)) = [Suc 0]"
  "readyState two_sessions 0 = OPEN"
  "readyState two_sessions (Suc 0) = OPEN"
  "sent two_sessions = []"
  by (simp_all add: two_sessions_eq one_client_eq init_def)

lemma ws_message_two_sessions:
  "ws_message two_sessions 0 (Some ''file-change'')
     = two_sessions\<lparr>sent := [(0, RefreshPreview ''a'')]\<rparr>"
  by (simp add: ws_message_def broadcastToContainer_def two_sessions_fields)

theorem broadcast_stays_in_session_witness:
  "reachable two_sessions
   \<and> step two_sessions (Some ''a'') (ws_message two_sessions 0 (Some ''file-change''))
   \<and> deliveries two_sessions (ws_message two_sessions 0 (Some ''file-change''))
       = [(0, RefreshPreview ''a'')]
   \<and> readyState (ws_message two_sessions 0 (Some ''file-change'')) 0 = OPEN
   \<and> registered (ws_message two_sessions 0 (Some ''file-change'')) ''a'' = [0]
   \<and> registered (ws_message two_sessions 0 (Some ''file-change'')) ''b'' = [Suc 0]
   \<and> {p. 0 \<in> set (registered (ws_message two_sessions 0 (Some ''file-change'')) p)} = {''a''}"
proof -
  have s: "step two_sessions (Some ''a'') (ws_message two_sessions 0 (Some ''file-change''))"
    using step.on_message [OF two_sessions_fields(1), of "Some ''file-change''"] by simp
  have d: "deliveries two_sessions (ws_message two_sessions 0 (Some ''file-change''))
             = [(0, RefreshPreview ''a'')]"
    by (simp add: ws_message_two_sessions deliveries_def two_sessions_fields)
  have m: "(0, RefreshPreview ''a'')
             \<in> set (deliveries two_sessions (ws_message two_sessions 0 (Some ''file-change'')))"
    by (simp add: d)
  have r: "registered (ws_message two_sessions 0 (Some ''file-change'')) ''a'' = [0]"
      "registered (ws_message two_sessions 0 (Some ''file-change'')) ''b'' = [Suc 0]"
    by (simp_all add: ws_message_two_sessions registered_def two_sessions_fields)
  show ?thesis
    using broadcast_stays_in_session [OF reachable_two_sessions s m]
      reachable_two_sessions s d r
    by simp
qed

section \<open>Process completion is broadcast once\<close>

lemma completions_broadcast:
  "\<not> is_completed p ev \<Longrightarrow>
     completions (broadcastToContainer st pid ev) c p = completions st c p"
  by (simp add: completions_def broadcastToContainer_def split: option.split)

lemma completions_sent: "sent st' = sent st \<Longrightarrow> completions st' c p = completions st c p"
  by (simp add: completions_def)

lemma completions_frame [simp]:
  "completions (update_container st a f) c p = completions st c p"
  "completions (st\<lparr>disk := d\<rparr>) c p = completions st c p"
  "completions (st\<lparr>children := ch\<rparr>) c p = completions st c p"
  "completions (st\<lparr>next_uuid := n\<rparr>) c p = completions st c p"
  "completions (st\<lparr>spawn_fault := sf\<rparr>) c p = completions st c p"
  by (simp_all add: completions_def)

lemma getOrCreate_keeps:
  assumes "getOrCreate st pid = Inr (a, st1)"
  shows "finished st1 p = finished st p" "unstarted st1 p = unstarted st p"
    "completions st1 c p = completions st c p"
  using getOrCreate_frame [OF assms]
  by (simp_all add: finished_def unstarted_def completions_def)


lemma ws_close_keeps [simp]:
  "children (ws_close st w) = children st" "next_uuid (ws_close st w) = next_uuid st"
  by (simp_all add: ws_close_def Let_def split: option.split)

lemma cleanup_keeps [simp]:
  "children (cleanup st p) = children st" "next_uuid (cleanup st p) = next_uuid st"
  by (simp_all add: cleanup_def split: option.split)

lemma foldl_cleanup_keeps [simp]:
  "children (foldl cleanup st ps) = children st"
  "next_uuid (foldl cleanup st ps) = next_uuid st"
  by (induction ps arbitrary: st) simp_all

lemma advance_keeps [simp]:
  "children (advance st t) = children st" "next_uuid (advance st t) = next_uuid st"
  by (simp_all add: advance_def)

lemma ws_message_keeps [simp]:
  "children (ws_message st w ty) = children st"
  "next_uuid (ws_message st w ty) = next_uuid st"
  "completions (ws_message st w ty) c p = completions st c p"
  by (simp_all add: ws_message_def Let_def completions_broadcast split: option.split)

lemma process_data_keeps [simp]:
  "children (process_data st q strm chunk) = children st"
  "next_uuid (process_data st q strm chunk) = next_uuid st"
  "completions (process_data st q strm chunk) c p = completions st c p"
  by (simp_all add: process_data_def completions_broadcast split: option.split)

lemma files_read_keeps [simp]:
  "children (snd (files_read st pid path)) = children st"
  "next_uuid (snd (files_read st pid path)) = next_uuid st"
  by (simp_all add: files_read_def Let_def split: option.split sum.split)




lemma exec_callback_next_uuid [simp]:
  "next_uuid (exec_callback st q error out err) = next_uuid st"
  by (simp add: exec_callback_def Let_def split: option.split)

lemma exec_callback_gone:
  "children st p = None \<Longrightarrow> exec_callback st p error out err = st"
  by (simp add: exec_callback_def)

lemma completions_quiet [simp]:
  "completions (ws_close st w) c p = completions st c p"
  "completions (advance st t) c p = completions st c p"
  "completions (snd (files_read st pid path)) c p = completions st c p"
  "completions (st\<lparr>readyState := rs\<rparr>) c p = completions st c p"
  by (simp_all add: completions_def)






lemma exec_callback_self [simp]:
  "children (exec_callback st q error out err) q = None"
  by (simp add: exec_callback_def Let_def split: option.split)

lemma registered_update_processes [simp]:
  "registered (update_container st a (\<lambda>c. c\<lparr>processes := f c\<rparr>)) = registered st"
  by (rule ext) (simp add: registered_def split: option.split)

lemma registered_children [simp]:
  "registered (st\<lparr>children := x\<rparr>) = registered st"
  by (rule ext) (simp add: registered_def split: option.split)




lemma filter_map_distinct_le:
  "distinct xs \<Longrightarrow> length (filter (\<lambda>d. fst d = c \<and> Q (snd d)) (map (\<lambda>x. (x, ev)) (filter P xs))) \<le> Suc 0"
  by (induction xs) (auto simp add: filter_empty_conv)





lemma one_client_fields:
  "containers one_client ''a'' = Some 0"
  "heap one_client 0 = \<lparr>container_id = ''a'', dir = ''/tmp/a'', clients = [0],
                        files = Map.empty, processes = {}\<rparr>"
  "disk one_client = Map.empty([''tmp''] \<mapsto> Dir, [''tmp'', ''a''] \<mapsto> Dir)"
  "next_uuid one_client = 0"
  "children one_client = Map.empty"
  "readyState one_client 0 = OPEN"
  "sent one_client = []"
  "connections one_client 0 = Some \<lparr>conn_container = 0, conn_previewId = ''a''\<rparr>"
  "spawn_fault one_client = (\<lambda>_. None)"
  by (simp_all add: one_client_eq init_def)


lemma path_join_a_root: "path_join [''/tmp/a'', ''/''] = ''/tmp/a/''"
  by (simp add: path_defs)

lemma resolve_tmp_a_slash: "resolve ''/tmp/a/'' = [''tmp'', ''a'']"
  by (simp add: path_defs)

lemma refusal_tmp_a_slash: "refusal ''/tmp/a/'' = None"
  by (simp add: refusal_def segments_eval del: segments.simps(2))

lemma exec_one_client:
  "CHR 0x00 \<notin> set line \<Longrightarrow> exec one_client line ''/tmp/a/'' = None"
  by (simp add: exec_def one_client_fields)

lemma execute_one_client:
  assumes "CHR 0x00 \<notin> set (c # cs)"
      and "CHR 0x00 \<notin> set (array_join '' '' (case args of None \<Rightarrow> [] | Some as \<Rightarrow> as))"
  shows "execute one_client ''a'' (Some (c # cs)) args None =
     (Response 200 (JsonProcessId 0),
      one_client\<lparr>next_uuid := Suc 0,
        children := [0 \<mapsto> \<lparr>child_container = 0, child_previewId = ''a'',
                          child_command = (c # cs) @ '' '' @ array_join '' ''
                              (case args of None \<Rightarrow> [] | Some as \<Rightarrow> as),
                          child_cwd = ''/tmp/a/''\<rparr>],
        heap := (heap one_client)(0 :=
                  \<lparr>container_id = ''a'', dir = ''/tmp/a'', clients = [0],
                   files = Map.empty, processes = {0}\<rparr>)\<rparr>)"
proof -
  have "exec (one_client\<lparr>next_uuid := Suc 0, disk := disk one_client\<rparr>)
          ((c # cs) @ '' '' @ array_join '' '' (case args of None \<Rightarrow> [] | Some as \<Rightarrow> as))
          ''/tmp/a/'' = None"
    using assms by (simp add: exec_def one_client_fields)
  moreover have "mkdirSync (disk one_client) ''/tmp/a/'' = Inr (disk one_client)"
    by (simp add: one_client_fields mkdirSync_def resolve_tmp_a_slash refusal_tmp_a_slash)
  ultimately show ?thesis
    by (simp add: execute_def getOrCreate_def one_client_fields(1,2,4,5) path_join_a_root
        update_container_def)
qed

lemma spawned_fields:
  "children spawned 0 = Some \<lparr>child_container = 0, child_previewId = ''a'',
                          child_command = ''echo hello'', child_cwd = ''/tmp/a/''\<rparr>"
  "containers spawned ''a'' = Some 0"
  "clients (heap spawned 0) = [0]"
  "processes (heap spawned 0) = {0}"
  "readyState spawned 0 = OPEN"
  "sent spawned = []"
  by (simp_all add: spawned_def execute_one_client one_client_fields)


lemma exec_callback_spawned:
  "exec_callback spawned 0 error out err =
     spawned\<lparr>children := Map.empty,
       heap := (heap spawned)(0 := (heap spawned 0)\<lparr>processes := {}\<rparr>),
       sent := [(0, ProcessCompleted ''a'' 0 (case error of None \<Rightarrow> Num 0 | Some c \<Rightarrow> c) out err)]\<rparr>"
  by (simp add: exec_callback_def spawned_fields broadcastToContainer_def update_container_def
      spawned_def execute_one_client one_client_fields Let_def)


section \<open>Session registry: get-or-create\<close>

text \<open>
  What the handlers do for an identifier that is registered: the connection handler,
  the write handler and the execute handler work on the registered container and
  allocate nothing; and no step puts another container in its place.
\<close>

lemma getOrCreate_first:
  assumes "getOrCreate st previewId = Inr (a, st')"
  shows "containers st previewId = Some a \<and> st' = st
       \<or> containers st previewId = None \<and> a = next_addr st \<and> next_addr st' = Suc a
         \<and> heap st' a = \<lparr>container_id = previewId, dir = path_join [''/tmp'', previewId],
                         clients = [], files = Map.empty, processes = {}\<rparr>"
  using assms by (cases rule: getOrCreate_cases) simp_all

lemma connection_seen:
  assumes "containers st p = Some a" "p \<noteq> []" "connection st (Some p) = Inr (w, st')"
  shows "w = next_ws st
       \<and> connections st' w = Some \<lparr>conn_container = a, conn_previewId = p\<rparr>
       \<and> containers st' = containers st \<and> next_addr st' = next_addr st \<and> disk st' = disk st
       \<and> heap st' = (heap st)(a := (heap st a)\<lparr>clients := set_add (clients (heap st a)) w\<rparr>)"
  using assms(3)
proof (cases rule: connection_cases)
  case closed
  with assms(2) show ?thesis by simp
next
  case (joined p' b st1)
  let ?st0 = "st\<lparr>next_ws := Suc (next_ws st), readyState := (readyState st)(next_ws st := OPEN)\<rparr>"
  have "getOrCreate ?st0 p = Inr (a, ?st0)"
    by (rule getOrCreate_seen) (simp add: assms(1))
  with joined have "b = a" "st1 = ?st0" by simp_all
  with joined show ?thesis by simp
qed

lemma files_write_seen:
  assumes "containers st p = Some a" "files_write st p path content = (r, st')"
  shows "containers st' = containers st \<and> next_addr st' = next_addr st
       \<and> (\<exists>fs. heap st' = (heap st)(a := (heap st a)\<lparr>files := fs\<rparr>))"
proof -
  have g: "getOrCreate st p = Inr (a, st)" using getOrCreate_seen [OF assms(1)] .
  have same: "\<exists>fs. heap st = (heap st)(a := (heap st a)\<lparr>files := fs\<rparr>)"
    by (rule exI [of _ "files (heap st a)"]) simp
  from assms(2) show ?thesis
  proof (cases rule: files_write_cases)
    case missing
    with same show ?thesis by simp
  next
    case (no_session path' content' e)
    with same show ?thesis by simp
  next
    case (no_dir path' content' b st1 e)
    with g same show ?thesis by simp
  next
    case (no_file path' content' b st1 d1 e)
    with g same show ?thesis by simp
  next
    case (written path' content' b st1 d1 d2)
    with g have "b = a" "st1 = st" by simp_all
    with written show ?thesis by auto
  qed
qed

lemma execute_seen:
  assumes "containers st p = Some a" "execute st p command args cwd = (r, st')"
  shows "containers st' = containers st \<and> next_addr st' = next_addr st
       \<and> heap st' = (heap st)(a := (heap st a)\<lparr>processes :=
            (if ok r then insert (next_uuid st) (processes (heap st a))
             else processes (heap st a))\<rparr>)"
proof -
  have g: "getOrCreate st p = Inr (a, st)" using getOrCreate_seen [OF assms(1)] .
  from assms(2) show ?thesis
  proof (cases rule: execute_cases)
    case missing
    then show ?thesis by (simp add: ok_def)
  next
    case (no_session cmd e)
    then show ?thesis by (simp add: ok_def)
  next
    case (no_dir cmd b st1 e)
    with g show ?thesis by (simp add: ok_def)
  next
    case (thrown cmd b st1 d e)
    with g show ?thesis by (simp add: ok_def)
  next
    case (started cmd b st1 d ch)
    with g have "b = a" "st1 = st" by simp_all
    with started show ?thesis by (simp add: ok_def)
  qed
qed

lemma cleanup_entry:
  "containers (cleanup st q) p = containers st p \<or> containers (cleanup st q) p = None"
  by (simp add: cleanup_def split: option.split)

lemma foldl_cleanup_entry:
  "containers (foldl cleanup st qs) p = containers st p
   \<or> containers (foldl cleanup st qs) p = None"
proof (induction qs arbitrary: st)
  case Nil
  then show ?case by simp
next
  case (Cons q qs)
  from Cons.IH [of "cleanup st q"] cleanup_entry [of st q p] show ?case by auto
qed

lemma getOrCreate_entry:
  assumes "getOrCreate st q = Inr (b, st1)" "containers st p = Some a"
  shows "containers st1 p = Some a"
  using assms(1) by (cases rule: getOrCreate_cases) (use assms(2) in auto)

lemma step_entry:
  assumes "step st origin st'" "containers st p = Some a"
  shows "containers st' p = Some a \<or> containers st' p = None"
  using assms
proof (induction rule: step.induct)
  case (on_connection st q w st')
  from on_connection(1) show ?case
  proof (cases rule: connection_cases)
    case closed
    with on_connection(2) show ?thesis by simp
  next
    case (joined p' b st1)
    from getOrCreate_entry [OF joined(4), of p a] on_connection(2) joined(5)
    show ?thesis by simp
  qed
next
  case (on_timers st t)
  then show ?case
    using foldl_cleanup_entry
      [of "st\<lparr>now := t, timers := filter (\<lambda>(deadline, _). t < deadline) (timers st)\<rparr>" _ p]
    by (auto simp add: advance_def)
next
  case (on_write st q path content)
  obtain r st' where w: "files_write st q path content = (r, st')"
    by (cases "files_write st q path content")
  from w have "containers st' p = Some a"
    by (cases rule: files_write_cases) (use on_write getOrCreate_entry in auto)
  with w show ?case by simp
next
  case (on_execute st q command args cwd)
  obtain r st' where e: "execute st q command args cwd = (r, st')"
    by (cases "execute st q command args cwd")
  from e have "containers st' p = Some a"
    by (cases rule: execute_cases) (use on_execute getOrCreate_entry in auto)
  with e show ?case by simp
qed (simp_all add: ws_message_def ws_close_def files_read_def exec_callback_def
      process_data_def Let_def split: option.split sum.split)

lemma connection_one_client_a:
  "connection one_client (Some ''a'') =
     Inr (Suc 0, one_client\<lparr>next_ws := Suc (Suc 0),
                   readyState := (readyState one_client)(Suc 0 := OPEN),
                   connections := (connections one_client)(Suc 0 \<mapsto>
                       \<lparr>conn_container = 0, conn_previewId = ''a''\<rparr>),
                   heap := (heap one_client)(0 :=
                       \<lparr>container_id = ''a'', dir = ''/tmp/a'', clients = [0, Suc 0],
                        files = Map.empty, processes = {}\<rparr>)\<rparr>)"
  by (simp add: connection_def getOrCreate_def one_client_fields update_container_def
      set_add_def one_client_eq init_def)

lemma getOrCreate_init_a:
  "getOrCreate init ''a'' =
     Inr (0, init\<lparr>disk := Map.empty([''tmp''] \<mapsto> Dir, [''tmp'', ''a''] \<mapsto> Dir),
                   next_addr := Suc 0,
                   heap := (heap init)(0 :=
                       \<lparr>container_id = ''a'', dir = ''/tmp/a'', clients = [],
                        files = Map.empty, processes = {}\<rparr>),
                   containers := [''a'' \<mapsto> 0]\<rparr>)"
  by (simp add: getOrCreate_def createContainer_def path_join_tmp_a mkdirSync_def
      resolve_tmp_a refusal_tmp_a init_def)

text \<open>
  Claim C6. Get-or-create is idempotent. A call for an identifier returns the container
  that the registry holds for the identifier afterwards: the one it held before, with
  the state untouched, or else a newly allocated empty one. A further call returns the
  same container (the same address) and leaves the whole state as it is. The same
  holds in every later state in which the identifier is still registered to this
  container: a connection, a write and an execute for the identifier work on this
  very container, allocate nothing and leave the registry as it is; the connection
  adds its socket to the client set, the execute at most its new process to the
  process set, the write touches the file cache only. No step of the backend puts
  another container in its place: a step leaves the entry or removes it.
\<close>

theorem getOrCreate_idempotent:
  assumes "getOrCreate st previewId = Inr (a, st')"
  shows "containers st' previewId = Some a
       \<and> getOrCreate st' previewId = Inr (a, st')
       \<and> (containers st previewId = Some a \<and> st' = st
          \<or> containers st previewId = None \<and> a = next_addr st \<and> next_addr st' = Suc a
            \<and> heap st' a = \<lparr>container_id = previewId, dir = path_join [''/tmp'', previewId],
                            clients = [], files = Map.empty, processes = {}\<rparr>)
       \<and> (\<forall>st2. containers st2 previewId = Some a \<longrightarrow>
            getOrCreate st2 previewId = Inr (a, st2)
            \<and> (\<forall>w st3. previewId \<noteq> [] \<and> connection st2 (Some previewId) = Inr (w, st3) \<longrightarrow>
                  w = next_ws st2
                  \<and> connections st3 w = Some \<lparr>conn_container = a, conn_previewId = previewId\<rparr>
                  \<and> containers st3 = containers st2 \<and> next_addr st3 = next_addr st2
                  \<and> disk st3 = disk st2
                  \<and> heap st3 = (heap st2)(a := (heap st2 a)
                        \<lparr>clients := set_add (clients (heap st2 a)) w\<rparr>))
            \<and> (\<forall>path content r st3. files_write st2 previewId path content = (r, st3) \<longrightarrow>
                  containers st3 = containers st2 \<and> next_addr st3 = next_addr st2
                  \<and> (\<exists>fs. heap st3 = (heap st2)(a := (heap st2 a)\<lparr>files := fs\<rparr>)))
            \<and> (\<forall>command args cwd r st3.
                  execute st2 previewId command args cwd = (r, st3) \<longrightarrow>
                  containers st3 = containers st2 \<and> next_addr st3 = next_addr st2
                  \<and> heap st3 = (heap st2)(a := (heap st2 a)\<lparr>processes :=
                        (if ok r then insert (next_uuid st2) (processes (heap st2 a))
                         else processes (heap st2 a))\<rparr>))
            \<and> (\<forall>origin st3. step st2 origin st3 \<longrightarrow>
                  containers st3 previewId = Some a \<or> containers st3 previewId = None))"
proof -
  have 1: "containers st' previewId = Some a" using getOrCreate_registers [OF assms] .
  have 2: "getOrCreate st' previewId = Inr (a, st')" using getOrCreate_seen [OF 1] .
  note 3 = getOrCreate_first [OF assms]
  have 4: "getOrCreate st2 previewId = Inr (a, st2)
       \<and> (\<forall>w st3. previewId \<noteq> [] \<and> connection st2 (Some previewId) = Inr (w, st3) \<longrightarrow>
             w = next_ws st2
             \<and> connections st3 w = Some \<lparr>conn_container = a, conn_previewId = previewId\<rparr>
             \<and> containers st3 = containers st2 \<and> next_addr st3 = next_addr st2
             \<and> disk st3 = disk st2
             \<and> heap st3 = (heap st2)(a := (heap st2 a)
                   \<lparr>clients := set_add (clients (heap st2 a)) w\<rparr>))
       \<and> (\<forall>path content r st3. files_write st2 previewId path content = (r, st3) \<longrightarrow>
             containers st3 = containers st2 \<and> next_addr st3 = next_addr st2
             \<and> (\<exists>fs. heap st3 = (heap st2)(a := (heap st2 a)\<lparr>files := fs\<rparr>)))
       \<and> (\<forall>command args cwd r st3.
             execute st2 previewId command args cwd = (r, st3) \<longrightarrow>
             containers st3 = containers st2 \<and> next_addr st3 = next_addr st2
             \<and> heap st3 = (heap st2)(a := (heap st2 a)\<lparr>processes :=
                   (if ok r then insert (next_uuid st2) (processes (heap st2 a))
                    else processes (heap st2 a))\<rparr>))
       \<and> (\<forall>origin st3. step st2 origin st3 \<longrightarrow>
             containers st3 previewId = Some a \<or> containers st3 previewId = None)"
    if r: "containers st2 previewId = Some a" for st2
    using getOrCreate_seen [OF r] connection_seen [OF r] files_write_seen [OF r]
      execute_seen [OF r] step_entry [OF _ r]
    by blast
  from 1 2 3 4 show ?thesis by blast
qed

theorem getOrCreate_idempotent_witness:
  "getOrCreate init ''a'' =
     Inr (0, init\<lparr>disk := Map.empty([''tmp''] \<mapsto> Dir, [''tmp'', ''a''] \<mapsto> Dir),
                   next_addr := Suc 0,
                   heap := (heap init)(0 :=
                       \<lparr>container_id = ''a'', dir = ''/tmp/a'', clients = [],
                        files = Map.empty, processes = {}\<rparr>),
                   containers := [''a'' \<mapsto> 0]\<rparr>)
   \<and> containers one_client ''a'' = Some 0
   \<and> getOrCreate one_client ''a'' = Inr (0, one_client)
   \<and> (\<exists>st3. connection one_client (Some ''a'') = Inr (Suc 0, st3)
          \<and> containers st3 = containers one_client \<and> next_addr st3 = next_addr one_client
          \<and> heap st3 = (heap one_client)(0 := (heap one_client 0)\<lparr>clients := [0, Suc 0]\<rparr>))"
proof -
  have c: "containers one_client ''a'' = Some 0" by (rule one_client_fields(1))
  note later = getOrCreate_idempotent [OF getOrCreate_init_a, THEN conjunct2, THEN conjunct2,
      THEN conjunct2, THEN spec, of one_client, THEN mp, OF c]
  have g: "getOrCreate one_client ''a'' = Inr (0, one_client)"
    using later by (rule conjunct1)
  have "''a'' \<noteq> [] \<and> connection one_client (Some ''a'')
          = Inr (Suc 0, one_client\<lparr>next_ws := Suc (Suc 0),
                   readyState := (readyState one_client)(Suc 0 := OPEN),
                   connections := (connections one_client)(Suc 0 \<mapsto>
                       \<lparr>conn_container = 0, conn_previewId = ''a''\<rparr>),
                   heap := (heap one_client)(0 :=
                       \<lparr>container_id = ''a'', dir = ''/tmp/a'', clients = [0, Suc 0],
                        files = Map.empty, processes = {}\<rparr>)\<rparr>)"
    using connection_one_client_a by simp
  from later [THEN conjunct2, THEN conjunct1, THEN spec, THEN spec, THEN mp, OF this]
  have "heap (one_client\<lparr>next_ws := Suc (Suc 0),
                   readyState := (readyState one_client)(Suc 0 := OPEN),
                   connections := (connections one_client)(Suc 0 \<mapsto>
                       \<lparr>conn_container = 0, conn_previewId = ''a''\<rparr>),
                   heap := (heap one_client)(0 :=
                       \<lparr>container_id = ''a'', dir = ''/tmp/a'', clients = [0, Suc 0],
                        files = Map.empty, processes = {}\<rparr>)\<rparr>)
          = (heap one_client)(0 := (heap one_client 0)
                \<lparr>clients := set_add (clients (heap one_client 0)) (Suc 0)\<rparr>)"
    by blast
  then have h: "(heap one_client)(0 :=
                       \<lparr>container_id = ''a'', dir = ''/tmp/a'', clients = [0, Suc 0],
                        files = Map.empty, processes = {}\<rparr>)
          = (heap one_client)(0 := (heap one_client 0)\<lparr>clients := [0, Suc 0]\<rparr>)"
    by (simp add: one_client_fields(2) set_add_def)
  show ?thesis
    using g h c by (simp add: getOrCreate_init_a connection_one_client_a)
qed

section \<open>Which operations create a session\<close>









end
